theory Spec2Isabelle
  imports Complex_Main "HOL-Library.Char_ord" "HOL-Library.List_Lexorder" "HOL-Library.Sublist"
begin

section \<open>The file system as the program sees it\<close>

text \<open>
  The update tab of \<^verbatim>\<open>main.go\<close> works on three directories: the source share
  (\<^verbatim>\<open>updateSourcePath\<close>), the local installation (\<^verbatim>\<open>updateTargetPath\<close>) and the
  backup directory (\<^verbatim>\<open>updateBackupDir\<close>). A directory tree is a \<open>node\<close>; a root that
  may be missing is a \<open>node option\<close>. A path is the list of its components below a
  root, so \<^verbatim>\<open>filepath.Rel(root, path)\<close> is the list itself and
  \<^verbatim>\<open>filepath.Join(root, rel)\<close> is the same list looked up under the other root;
  the relative path \<^verbatim>\<open>"."\<close> of a root is \<open>[]\<close>.

  A file carries its Windows hidden attribute, whether \<^verbatim>\<open>os.ReadFile\<close> succeeds on
  it, whether it can be overwritten, and its bytes. A directory carries whether
  \<^verbatim>\<open>os.ReadDir\<close> succeeds on it and the entries \<^verbatim>\<open>os.ReadDir\<close> returns, in the
  order it returns them. The trees do not change while a walk is running, and the
  three roots are disjoint.
\<close>

type_synonym bytes = string
type_synonym path = "string list"

datatype node =
    File (hidden: bool) (readable: bool) (writable: bool) (content: bytes)
  | Dir (listable: bool) (entries: "(string \<times> node) list")

text \<open>
  Go error values. \<open>SkipDir\<close> and \<open>SkipAll\<close> are the sentinels of
  \<^verbatim>\<open>path/filepath\<close>; \<open>NilDeref\<close> stands for the run-time panic of a method call
  on a nil \<^verbatim>\<open>fs.DirEntry\<close>.
\<close>

datatype err = ErrNotExist | ErrPermission | ErrNotDir | ErrIsDir | SkipDir | SkipAll | NilDeref

text \<open>What \<^verbatim>\<open>fs.FileInfo\<close> and \<^verbatim>\<open>fs.DirEntry\<close> tell the program: \<^verbatim>\<open>IsDir()\<close> and
  \<^verbatim>\<open>Size()\<close>. The size of a directory is 0, as on Windows.\<close>

record info =
  IsDir :: bool
  Size :: nat

fun info_of :: "node \<Rightarrow> info" where
  "info_of (File h r w c) = \<lparr>IsDir = False, Size = length c\<rparr>"
| "info_of (Dir l es) = \<lparr>IsDir = True, Size = 0\<rparr>"

fun child :: "node \<Rightarrow> string \<Rightarrow> node option" where
  "child (Dir l es) x = map_of es x"
| "child (File h r w c) x = None"

fun lookup :: "node option \<Rightarrow> path \<Rightarrow> node option" where
  "lookup None p = None"
| "lookup (Some n) [] = Some n"
| "lookup (Some n) (x # xs) = lookup (child n x) xs"

text \<open>\<^verbatim>\<open>os.Stat\<close> and \<^verbatim>\<open>os.ReadFile\<close> on a path below a root.\<close>

definition stat :: "node option \<Rightarrow> path \<Rightarrow> err + info" where
  "stat rt p = (case lookup rt p of None \<Rightarrow> Inl ErrNotExist | Some n \<Rightarrow> Inr (info_of n))"

definition readFile :: "node option \<Rightarrow> path \<Rightarrow> err + bytes" where
  "readFile rt p =
     (case lookup rt p of
        None \<Rightarrow> Inl ErrNotExist
      | Some (Dir l es) \<Rightarrow> Inl ErrIsDir
      | Some (File h r w c) \<Rightarrow> if r then Inr c else Inl ErrPermission)"

subsection \<open>\<^verbatim>\<open>filepath.WalkDir\<close>\<close>

text \<open>
  The walk of the Go standard library, with the callback threading a state \<open>'s\<close>
  (the variables the closure captures). \<open>walkDir\<close> calls the callback on the node;
  for a directory it reads the entries, reports a \<^verbatim>\<open>ReadDir\<close> error by a second
  call, and descends into whatever entries it has. An error of the callback ends the
  walk, except that \<open>SkipDir\<close> only leaves the current directory.
\<close>

type_synonym 's walkfn = "'s \<Rightarrow> path \<Rightarrow> info option \<Rightarrow> err option \<Rightarrow> 's \<times> err option"

fun walkDir :: "'s walkfn \<Rightarrow> path \<Rightarrow> node \<Rightarrow> 's \<Rightarrow> 's \<times> err option"
and walkDirEntries :: "'s walkfn \<Rightarrow> path \<Rightarrow> (string \<times> node) list \<Rightarrow> 's \<Rightarrow> 's \<times> err option" where
  "walkDir fn p (File h r w c) s = fn s p (Some (info_of (File h r w c))) None"
| "walkDir fn p (Dir l es) s =
    (case fn s p (Some (info_of (Dir l es))) None of
       (s1, Some e) \<Rightarrow> (s1, if e = SkipDir then None else Some e)
     | (s1, None) \<Rightarrow>
        (case (if l then (s1, None) else fn s1 p (Some (info_of (Dir l es))) (Some ErrPermission)) of
           (s2, Some e) \<Rightarrow> (s2, if e = SkipDir then None else Some e)
         | (s2, None) \<Rightarrow> walkDirEntries fn p es s2))"
| "walkDirEntries fn p [] s = (s, None)"
| "walkDirEntries fn p ((x, c) # es) s =
    (case walkDir fn (p @ [x]) c s of
       (s1, None) \<Rightarrow> walkDirEntries fn p es s1
     | (s1, Some e) \<Rightarrow> (s1, if e = SkipDir then None else Some e))"

definition WalkDir :: "'s walkfn \<Rightarrow> node option \<Rightarrow> 's \<Rightarrow> 's \<times> err option" where
  "WalkDir fn rt s =
     (case (case rt of
              None \<Rightarrow> fn s [] None (Some ErrNotExist)
            | Some n \<Rightarrow> walkDir fn [] n s) of
        (s1, e) \<Rightarrow> (s1, if e = Some SkipDir \<or> e = Some SkipAll then None else e))"

section \<open>The differ: \<^verbatim>\<open>fileHash\<close> and \<^verbatim>\<open>getFilesToUpdate\<close>\<close>

text \<open>
  \<^verbatim>\<open>fileHash\<close> returns the empty string when the file cannot be read and the 32 hex
  digits of the MD5 digest otherwise. The digest is a parameter \<open>md5\<close>; since its hex
  form is never empty, the empty string is \<open>None\<close> here and a digest \<open>d\<close> is
  \<open>Some d\<close>.
\<close>

definition fileHash :: "(bytes \<Rightarrow> 'h) \<Rightarrow> node option \<Rightarrow> path \<Rightarrow> 'h option" where
  "fileHash md5 rt p = (case readFile rt p of Inl e \<Rightarrow> None | Inr data \<Rightarrow> Some (md5 data))"

text \<open>
  The state of the walk in \<^verbatim>\<open>getFilesToUpdate\<close>: the slice \<^verbatim>\<open>toUpdate\<close>, and,
  as an observation the source does not keep, the files handed to \<^verbatim>\<open>fileHash\<close>
  in call order.
\<close>

datatype loc = InSource path | InTarget path

record diff_state =
  toUpdate :: "path list"
  hashed :: "loc list"

definition getFilesToUpdate_fn ::
  "(bytes \<Rightarrow> 'h) \<Rightarrow> node option \<Rightarrow> node option \<Rightarrow> diff_state walkfn" where
  "getFilesToUpdate_fn md5 src tgt s path d e =
     (case e of
        Some walkErr \<Rightarrow> (s, None)
      | None \<Rightarrow>
         (case d of
            None \<Rightarrow> (s, Some NilDeref)
          | Some srcInfo \<Rightarrow>
              if IsDir srcInfo then (s, None)
              else
                (case stat tgt path of
                   Inl tgtErr \<Rightarrow> (s\<lparr>toUpdate := toUpdate s @ [path]\<rparr>, None)
                 | Inr tgtInfo \<Rightarrow>
                     if Size srcInfo \<noteq> Size tgtInfo
                     then (s\<lparr>toUpdate := toUpdate s @ [path]\<rparr>, None)
                     else
                       (let srcHash = fileHash md5 src path;
                            tgtHash = fileHash md5 tgt path;
                            s1 = s\<lparr>hashed := hashed s @ [InSource path, InTarget path]\<rparr>
                        in if srcHash \<noteq> None \<and> tgtHash \<noteq> None \<and> srcHash \<noteq> tgtHash
                           then (s1\<lparr>toUpdate := toUpdate s1 @ [path]\<rparr>, None)
                           else (s1, None)))))"

definition getFilesToUpdate_run ::
  "(bytes \<Rightarrow> 'h) \<Rightarrow> node option \<Rightarrow> node option \<Rightarrow> diff_state \<times> err option" where
  "getFilesToUpdate_run md5 src tgt =
     WalkDir (getFilesToUpdate_fn md5 src tgt) src \<lparr>toUpdate = [], hashed = []\<rparr>"

definition getFilesToUpdate ::
  "(bytes \<Rightarrow> 'h) \<Rightarrow> node option \<Rightarrow> node option \<Rightarrow> path list \<times> err option" where
  "getFilesToUpdate md5 src tgt =
     (case getFilesToUpdate_run md5 src tgt of (s, e) \<Rightarrow> (toUpdate s, e))"

section \<open>The widgets of the update tab\<close>

text \<open>
  The texts are Vietnamese in the source; each constructor names one format string.
  \<open>log\<close> is the sequence of \<^verbatim>\<open>addLog\<close> calls (the time stamp \<^verbatim>\<open>addLog\<close> prepends
  and its cut to the last 100 lines of the widget are left out), \<open>status\<close> the text
  of \<^verbatim>\<open>statusLabel\<close>, \<open>progress\<close> the sequence of \<^verbatim>\<open>progressBar.SetValue\<close>
  calls (as exact fractions; showing and hiding the bar is left out), \<open>dialogs\<close> the
  sequence of \<^verbatim>\<open>showMsg\<close> calls.
\<close>

datatype logmsg =
    LogSavedConfig              \<comment> \<open>"Da luu cau hinh"\<close>
  | LogStartCheck               \<comment> \<open>"Bat dau kiem tra tu: " + updateSourcePath\<close>
  | LogError err                \<comment> \<open>"Loi: " + err.Error()\<close>
  | LogNoFiles                  \<comment> \<open>"Khong co file can cap nhat"\<close>
  | LogHaveFiles nat            \<comment> \<open>"Co %d file can cap nhat:"\<close>
  | LogItem path                \<comment> \<open>"  - " + f\<close>
  | LogMore nat                 \<comment> \<open>"  ... va %d file khac"\<close>
  | LogNeedUpdate nat           \<comment> \<open>"Can cap nhat %d file"\<close>
  | LogKilled                   \<comment> \<open>"Da tat ipcas2.exe"\<close>
  | LogLaunched                 \<comment> \<open>"Da mo ipcas2.exe"\<close>
  | LogReadErr path             \<comment> \<open>"Loi doc: " + relPath\<close>
  | LogWriteErr path            \<comment> \<open>"Loi ghi: " + relPath\<close>
  | LogUpdated path             \<comment> \<open>"Cap nhat: " + relPath\<close>
  | LogUpdateDone nat nat       \<comment> \<open>"Hoan tat cap nhat %d file trong %s"\<close>
  | LogBackupFirst              \<comment> \<open>"Dang tao backup truoc khi cap nhat..."\<close>
  | LogBackupError err          \<comment> \<open>"Loi backup: " + err.Error()\<close>
  | LogBackupOk                 \<comment> \<open>"Backup hoan tat"\<close>
  | LogNoBackup                 \<comment> \<open>"Cap nhat khong backup theo yeu cau nguoi dung"\<close>
  | LogCreatingBackup string    \<comment> \<open>"Dang tao backup: " + backupName\<close>
  | LogRemovedOld string        \<comment> \<open>"Xoa backup cu: " + bkFiles[i]\<close>
  | LogBackupDone string        \<comment> \<open>"Backup hoan tat: " + backupName\<close>
  | LogRestoring string         \<comment> \<open>"Dang restore tu: " + backupList.Selected\<close>
  | LogOpenBackupErr            \<comment> \<open>"Loi mo backup: " + err.Error()\<close>
  | LogOpenErr path             \<comment> \<open>"Loi mo file: " + f.Name\<close>
  | LogZipReadErr path          \<comment> \<open>"Loi doc file: " + f.Name\<close>
  | LogRestored path            \<comment> \<open>"Restore: " + f.Name\<close>
  | LogRestoreDone              \<comment> \<open>"Restore hoan tat!"\<close>

datatype status =
    StReady                     \<comment> \<open>"San sang"\<close>
  | StChecking                  \<comment> \<open>"Dang kiem tra..."\<close>
  | StConnError                 \<comment> \<open>"Loi ket noi"\<close>
  | StUpToDate                  \<comment> \<open>"Da cap nhat moi nhat"\<close>
  | StNeedUpdate nat            \<comment> \<open>"Co %d file can cap nhat"\<close>
  | StUpdating nat nat          \<comment> \<open>"Dang cap nhat... %d/%d (con ~%s)", without the estimate\<close>
  | StUpdateDone                \<comment> \<open>"Cap nhat hoan tat!"\<close>
  | StBackingUp                 \<comment> \<open>"Dang backup..."\<close>
  | StRestoreDone               \<comment> \<open>"Restore hoan tat!"\<close>

datatype dialog =
    DlgUpdated nat              \<comment> \<open>showMsg("Hoan tat", "Da cap nhat %d file")\<close>
  | DlgChooseBackup             \<comment> \<open>showMsg("Loi", "Vui long chon ban backup")\<close>
  | DlgRestored string          \<comment> \<open>showMsg("Hoan tat", "Da restore tu " + backupList.Selected)\<close>

record ui =
  log :: "logmsg list"
  status :: status
  progress :: "rat list"
  dialogs :: "dialog list"
  backupOptions :: "string list"
  backupSelected :: string

definition addLog :: "logmsg \<Rightarrow> ui \<Rightarrow> ui" where
  "addLog m u = u\<lparr>log := log u @ [m]\<rparr>"

definition setStatus :: "status \<Rightarrow> ui \<Rightarrow> ui" where
  "setStatus st u = u\<lparr>status := st\<rparr>"

definition setProgress :: "rat \<Rightarrow> ui \<Rightarrow> ui" where
  "setProgress v u = u\<lparr>progress := progress u @ [v]\<rparr>"

definition showMsg :: "dialog \<Rightarrow> ui \<Rightarrow> ui" where
  "showMsg d u = u\<lparr>dialogs := dialogs u @ [d]\<rparr>"

definition saveConfig :: "ui \<Rightarrow> ui" where
  "saveConfig u = addLog LogSavedConfig u"

subsection \<open>\<^verbatim>\<open>doCheck\<close>\<close>

text \<open>The loop of \<^verbatim>\<open>doCheck\<close> over the change set: the first ten entries are
  logged, then one line counts the rest and the loop breaks.\<close>

fun logItems :: "nat \<Rightarrow> nat \<Rightarrow> path list \<Rightarrow> ui \<Rightarrow> ui" where
  "logItems i n [] u = u"
| "logItems i n (f # fs) u =
     (if i \<ge> 10 then addLog (LogMore (n - 10)) u
      else logItems (Suc i) n fs (addLog (LogItem f) u))"

definition doCheck :: "(bytes \<Rightarrow> 'h) \<Rightarrow> node option \<Rightarrow> node option \<Rightarrow> ui \<Rightarrow> ui" where
  "doCheck md5 src tgt u0 =
     (let u1 = setProgress 0 (setStatus StChecking (saveConfig u0))
      in case getFilesToUpdate md5 src tgt of
           (files, Some e) \<Rightarrow> setStatus StConnError (addLog (LogError e) u1)
         | (files, None) \<Rightarrow>
             if length files = 0
             then setStatus StUpToDate (addLog LogNoFiles u1)
             else setStatus (StNeedUpdate (length files))
                    (logItems 0 (length files) files (addLog (LogHaveFiles (length files)) u1)))"

section \<open>Writing to a tree\<close>

text \<open>
  \<open>ins\<close> puts an entry into a directory listing: an entry of the same name is
  replaced where it stands, a new name is put at its place in the name order of
  \<^verbatim>\<open>os.ReadDir\<close>. \<open>del\<close> takes the entry of a name out of a listing.
\<close>

definition ins :: "string \<Rightarrow> 'a \<Rightarrow> (string \<times> 'a) list \<Rightarrow> (string \<times> 'a) list" where
  "ins x c es =
     (if x \<in> fst ` set es
      then map (\<lambda>e. if fst e = x then (x, c) else e) es
      else insort_key fst (x, c) es)"

definition del :: "string \<Rightarrow> (string \<times> 'a) list \<Rightarrow> (string \<times> 'a) list" where
  "del x es = filter (\<lambda>e. fst e \<noteq> x) es"

text \<open>
  \<^verbatim>\<open>os.MkdirAll\<close> and \<^verbatim>\<open>os.WriteFile\<close> on a path below a root; the result is the
  new tree at the root. \<^verbatim>\<open>MkdirAll\<close> fails when a file stands where a directory
  is needed; \<^verbatim>\<open>WriteFile\<close> fails when the parent directory is missing, when the
  path is a directory, or when the file cannot be overwritten. A new file is
  visible, readable and writable.
\<close>

fun mkdirAll :: "node option \<Rightarrow> path \<Rightarrow> err + node" where
  "mkdirAll None [] = Inr (Dir True [])"
| "mkdirAll None (x # xs) =
     (case mkdirAll None xs of Inl e \<Rightarrow> Inl e | Inr c \<Rightarrow> Inr (Dir True [(x, c)]))"
| "mkdirAll (Some (File h r w c)) p = Inl ErrNotDir"
| "mkdirAll (Some (Dir l es)) [] = Inr (Dir l es)"
| "mkdirAll (Some (Dir l es)) (x # xs) =
     (case mkdirAll (map_of es x) xs of Inl e \<Rightarrow> Inl e | Inr c \<Rightarrow> Inr (Dir l (ins x c es)))"

fun writeFile :: "node option \<Rightarrow> path \<Rightarrow> bytes \<Rightarrow> err + node" where
  "writeFile None [] data = Inr (File False True True data)"
| "writeFile None (x # xs) data = Inl ErrNotExist"
| "writeFile (Some (File h r w c)) [] data =
     (if w then Inr (File h r w data) else Inl ErrPermission)"
| "writeFile (Some (File h r w c)) (x # xs) data = Inl ErrNotDir"
| "writeFile (Some (Dir l es)) [] data = Inl ErrIsDir"
| "writeFile (Some (Dir l es)) (x # xs) data =
     (case writeFile (map_of es x) xs data of
        Inl e \<Rightarrow> Inl e
      | Inr c \<Rightarrow> Inr (Dir l (ins x c es)))"

text \<open>\<^verbatim>\<open>os.MkdirAll(filepath.Dir(dst), 0755)\<close> with its error dropped, as both callers
  do. The parent of the root itself lies outside the tree and is taken to exist.\<close>

definition mkdirParent :: "node option \<Rightarrow> path \<Rightarrow> node option" where
  "mkdirParent rt p =
     (if p = [] then rt
      else case mkdirAll rt (butlast p) of Inl e \<Rightarrow> rt | Inr n \<Rightarrow> Some n)"

section \<open>The backup directory and the state of the tab\<close>

text \<open>
  A zip container is the list of its entries in the order of \<^verbatim>\<open>r.File\<close>: a name
  and either the bytes or the failure of \<^verbatim>\<open>f.Open\<close> or \<^verbatim>\<open>io.ReadAll\<close>. An entry
  of the backup directory is a zip container or something \<^verbatim>\<open>zip.OpenReader\<close>
  rejects. The backup directory exists, is missing, or cannot be created or written
  (then \<^verbatim>\<open>os.MkdirAll\<close> and \<^verbatim>\<open>os.Create\<close> fail).
\<close>

datatype zdata = ZData bytes | ZOpenErr | ZReadErr

type_synonym zentry = "path \<times> zdata"

datatype bfile = Zip "zentry list" | NotZip

datatype bdir = BackupDir "(string \<times> bfile) list" | BackupMissing | BackupBlocked

record world =
  source :: "node option"
  target :: "node option"
  backups :: bdir
  gui :: ui

definition HasPrefix :: "string \<Rightarrow> string \<Rightarrow> bool" where
  "HasPrefix s pre = (length s \<ge> length pre \<and> take (length pre) s = pre)"

definition HasSuffix :: "string \<Rightarrow> string \<Rightarrow> bool" where
  "HasSuffix s suf = (length s \<ge> length suf \<and> drop (length s - length suf) s = suf)"

definition isBackupName :: "string \<Rightarrow> bool" where
  "isBackupName n = (HasPrefix n ''BK_'' \<and> HasSuffix n ''.zip'')"

text \<open>\<^verbatim>\<open>sort.Sort(sort.Reverse(sort.StringSlice(xs)))\<close>: descending byte order.\<close>

definition sortReverse :: "string list \<Rightarrow> string list" where
  "sortReverse xs = rev (sort xs)"

definition listBackups :: "bdir \<Rightarrow> string list" where
  "listBackups bd =
     (case bd of
        BackupDir es \<Rightarrow> sortReverse (filter isBackupName (map fst es))
      | BackupMissing \<Rightarrow> []
      | BackupBlocked \<Rightarrow> [])"

definition refreshBackups :: "world \<Rightarrow> world" where
  "refreshBackups w =
     (let bs = listBackups (backups w);
          u = (gui w)\<lparr>backupOptions := bs\<rparr>
      in case bs of
           [] \<Rightarrow> w\<lparr>gui := u\<rparr>
         | b # rest \<Rightarrow> w\<lparr>gui := u\<lparr>backupSelected := b\<rparr>\<rparr>)"

definition killIPCAS :: "world \<Rightarrow> world" where
  "killIPCAS w = w\<lparr>gui := addLog LogKilled (gui w)\<rparr>"

definition launchIPCAS :: "world \<Rightarrow> world" where
  "launchIPCAS w =
     (case stat (target w) [''ipcas2.exe''] of
        Inl e \<Rightarrow> w
      | Inr i \<Rightarrow> w\<lparr>gui := addLog LogLaunched (gui w)\<rparr>)"

subsection \<open>\<^verbatim>\<open>createBackup\<close>\<close>

text \<open>
  The walk callback of \<^verbatim>\<open>createBackup\<close>: \<^verbatim>\<open>w.Create(relPath)\<close> opens the entry
  before the file is read, so a file that cannot be read leaves an empty entry.
\<close>

definition createBackup_fn :: "node option \<Rightarrow> (zentry list) walkfn" where
  "createBackup_fn tgt z path d e =
     (case e of
        Some walkErr \<Rightarrow> (z, None)
      | None \<Rightarrow>
         (case d of
            None \<Rightarrow> (z, Some NilDeref)
          | Some i \<Rightarrow>
              if IsDir i then (z, None)
              else
                (case readFile tgt path of
                   Inl e \<Rightarrow> (z @ [(path, ZData [])], None)
                 | Inr data \<Rightarrow> (z @ [(path, ZData data)], None))))"

definition backupName :: "string \<Rightarrow> string" where
  "backupName now = ''BK_'' @ now @ ''.zip''"

text \<open>
  \<^verbatim>\<open>os.Remove\<close> of an entry of the backup directory. The program runs on Windows,
  where a file that is held open cannot be removed: \<open>held\<close> is the name of the
  archive \<^verbatim>\<open>createBackup\<close> has created and not yet closed (both \<^verbatim>\<open>Close\<close> calls
  are deferred to the return of the function). No other process holds a backup open.
\<close>

definition osRemove :: "string \<Rightarrow> string \<Rightarrow> (string \<times> bfile) list \<Rightarrow> err + (string \<times> bfile) list" where
  "osRemove held n es = (if n = held then Inl ErrPermission else Inr (del n es))"

text \<open>The loop \<^verbatim>\<open>for i := 3; i < len(bkFiles); i++\<close>: the error of \<^verbatim>\<open>os.Remove\<close> is
  dropped, and the line "Xoa backup cu" is logged whether the file went or not.\<close>

fun removeOld :: "string \<Rightarrow> string list \<Rightarrow> (string \<times> bfile) list \<times> ui \<Rightarrow> (string \<times> bfile) list \<times> ui" where
  "removeOld held [] (es, u) = (es, u)"
| "removeOld held (n # ns) (es, u) =
     removeOld held ns
       ((case osRemove held n es of Inl e \<Rightarrow> es | Inr es' \<Rightarrow> es'),
        addLog (LogRemovedOld n) u)"

text \<open>\<open>now\<close> is \<^verbatim>\<open>time.Now().Format("20060102_150405")\<close>.\<close>

definition createBackup :: "string \<Rightarrow> world \<Rightarrow> world \<times> err option" where
  "createBackup now w =
     (let bd = (case backups w of BackupMissing \<Rightarrow> BackupDir [] | b \<Rightarrow> b);
          name = backupName now;
          u1 = addLog (LogCreatingBackup name) (gui w)
      in case bd of
           BackupDir es \<Rightarrow>
             (let z = fst (WalkDir (createBackup_fn (target w)) (target w) []);
                  es1 = ins name (Zip z) es;
                  bkFiles = sortReverse (filter isBackupName (map fst es1));
                  (es2, u2) = removeOld name (drop 3 bkFiles) (es1, u1);
                  u3 = addLog (LogBackupDone name) u2
              in (w\<lparr>backups := BackupDir es2, gui := u3\<rparr>, None))
         | BackupMissing \<Rightarrow> (w\<lparr>backups := bd, gui := u1\<rparr>, Some ErrNotExist)
         | BackupBlocked \<Rightarrow> (w\<lparr>backups := bd, gui := u1\<rparr>, Some ErrPermission))"

subsection \<open>\<^verbatim>\<open>performFilesUpdate\<close> and \<^verbatim>\<open>doUpdate\<close>\<close>

text \<open>The loop \<^verbatim>\<open>for i, relPath := range files\<close>; \<open>n\<close> is \<^verbatim>\<open>len(files)\<close>.\<close>

fun updateLoop :: "nat \<Rightarrow> nat \<Rightarrow> path list \<Rightarrow> world \<Rightarrow> world" where
  "updateLoop i n [] w = w"
| "updateLoop i n (relPath # rest) w =
     (let tgt1 = mkdirParent (target w) relPath
      in case readFile (source w) relPath of
           Inl e \<Rightarrow>
             updateLoop (Suc i) n rest
               (w\<lparr>target := tgt1, gui := addLog (LogReadErr relPath) (gui w)\<rparr>)
         | Inr data \<Rightarrow>
             (case writeFile tgt1 relPath data of
                Inl e \<Rightarrow>
                  updateLoop (Suc i) n rest
                    (w\<lparr>target := tgt1, gui := addLog (LogWriteErr relPath) (gui w)\<rparr>)
              | Inr t \<Rightarrow>
                  updateLoop (Suc i) n rest
                    (w\<lparr>target := Some t,
                       gui := setStatus (StUpdating (Suc i) n)
                                (setProgress (of_nat (Suc i) / of_nat n)
                                   (addLog (LogUpdated relPath) (gui w)))\<rparr>)))"

text \<open>\<open>elapsed\<close> is \<^verbatim>\<open>time.Since(startTime).Round(time.Second)\<close> in seconds.\<close>

definition performFilesUpdate :: "nat \<Rightarrow> path list \<Rightarrow> world \<Rightarrow> world" where
  "performFilesUpdate elapsed files w =
     (let w1 = killIPCAS w;
          w2 = w1\<lparr>gui := setProgress 0 (gui w1)\<rparr>;
          w3 = updateLoop 0 (length files) files w2;
          w4 = w3\<lparr>gui := setStatus StUpdateDone
                           (addLog (LogUpdateDone (length files) elapsed)
                              (setProgress 1 (gui w3)))\<rparr>;
          w5 = launchIPCAS (refreshBackups w4)
      in w5\<lparr>gui := showMsg (DlgUpdated (length files)) (gui w5)\<rparr>)"

text \<open>The three buttons of \<^verbatim>\<open>showUpdateConfirm\<close>.\<close>

datatype choice = BackupThenUpdate | UpdateOnly | Cancel

definition doUpdate :: "(bytes \<Rightarrow> 'h) \<Rightarrow> choice \<Rightarrow> string \<Rightarrow> nat \<Rightarrow> world \<Rightarrow> world" where
  "doUpdate md5 ch now elapsed w =
     (let u1 = addLog LogStartCheck (setProgress 0 (setStatus StChecking (saveConfig (gui w))))
      in case getFilesToUpdate md5 (source w) (target w) of
           (files, Some e) \<Rightarrow> w\<lparr>gui := setStatus StConnError (addLog (LogError e) u1)\<rparr>
         | (files, None) \<Rightarrow>
             if length files = 0
             then w\<lparr>gui := setStatus StUpToDate (addLog LogNoFiles u1)\<rparr>
             else
               (let w1 = w\<lparr>gui := addLog (LogNeedUpdate (length files)) u1\<rparr>
                in case ch of
                     BackupThenUpdate \<Rightarrow>
                       (case createBackup now
                               (w1\<lparr>gui := setStatus StBackingUp (addLog LogBackupFirst (gui w1))\<rparr>) of
                          (w2, Some e) \<Rightarrow>
                            performFilesUpdate elapsed files
                              (w2\<lparr>gui := addLog (LogBackupError e) (gui w2)\<rparr>)
                        | (w2, None) \<Rightarrow>
                            performFilesUpdate elapsed files
                              (refreshBackups (w2\<lparr>gui := addLog LogBackupOk (gui w2)\<rparr>)))
                   | UpdateOnly \<Rightarrow>
                       performFilesUpdate elapsed files
                         (w1\<lparr>gui := addLog LogNoBackup (gui w1)\<rparr>)
                   | Cancel \<Rightarrow> w1))"

subsection \<open>\<^verbatim>\<open>doRestore\<close>\<close>

definition openZip :: "bdir \<Rightarrow> string \<Rightarrow> zentry list option" where
  "openZip bd sel =
     (case bd of
        BackupDir es \<Rightarrow>
          (case map_of es sel of
             Some (Zip z) \<Rightarrow> Some z
           | Some NotZip \<Rightarrow> None
           | None \<Rightarrow> None)
      | BackupMissing \<Rightarrow> None
      | BackupBlocked \<Rightarrow> None)"

text \<open>The loop \<^verbatim>\<open>for i, f := range r.File\<close>; the result of \<^verbatim>\<open>os.WriteFile\<close> is
  dropped.\<close>

fun restoreLoop :: "nat \<Rightarrow> nat \<Rightarrow> zentry list \<Rightarrow> world \<Rightarrow> world" where
  "restoreLoop i tot [] w = w"
| "restoreLoop i tot ((name, d) # rest) w =
     (let tgt1 = mkdirParent (target w) name
      in case d of
           ZOpenErr \<Rightarrow>
             restoreLoop (Suc i) tot rest
               (w\<lparr>target := tgt1, gui := addLog (LogOpenErr name) (gui w)\<rparr>)
         | ZReadErr \<Rightarrow>
             restoreLoop (Suc i) tot rest
               (w\<lparr>target := tgt1, gui := addLog (LogZipReadErr name) (gui w)\<rparr>)
         | ZData data \<Rightarrow>
             (let tgt2 = (case writeFile tgt1 name data of Inl e \<Rightarrow> tgt1 | Inr t \<Rightarrow> Some t)
              in restoreLoop (Suc i) tot rest
                   (w\<lparr>target := tgt2,
                      gui := setProgress (of_nat (Suc i) / of_nat tot)
                               (addLog (LogRestored name) (gui w))\<rparr>)))"

definition doRestore :: "world \<Rightarrow> world" where
  "doRestore w =
     (if backupSelected (gui w) = []
      then w\<lparr>gui := showMsg DlgChooseBackup (gui w)\<rparr>
      else
        (let sel = backupSelected (gui w);
             w1 = killIPCAS (w\<lparr>gui := addLog (LogRestoring sel) (gui w)\<rparr>)
         in case openZip (backups w1) sel of
              None \<Rightarrow> w1\<lparr>gui := addLog LogOpenBackupErr (gui w1)\<rparr>
            | Some zfiles \<Rightarrow>
                (let w2 = restoreLoop 0 (length zfiles) zfiles w1;
                     w3 = w2\<lparr>gui := setStatus StRestoreDone (addLog LogRestoreDone (gui w2))\<rparr>;
                     w4 = launchIPCAS w3
                 in w4\<lparr>gui := showMsg (DlgRestored sel) (gui w4)\<rparr>)))"

section \<open>The hidden-file scan: \<^verbatim>\<open>scanFiles\<close> and the scan button\<close>

subsection \<open>\<^verbatim>\<open>filepath.Walk\<close>\<close>

text \<open>
  The older walk of the standard library, which \<^verbatim>\<open>scanFiles\<close> uses. It calls the
  callback once per directory, with the error of reading the directory if there is
  one, and does not descend after such an error. \<open>SkipDir\<close> from a directory skips
  that directory; every other error ends the walk. The paths handed to the callback
  start with the path \<open>p\<close> of the root.
\<close>

fun walk :: "'s walkfn \<Rightarrow> path \<Rightarrow> node \<Rightarrow> 's \<Rightarrow> 's \<times> err option"
and walkNames :: "'s walkfn \<Rightarrow> path \<Rightarrow> (string \<times> node) list \<Rightarrow> 's \<Rightarrow> 's \<times> err option" where
  "walk fn p (File h r w c) s = fn s p (Some (info_of (File h r w c))) None"
| "walk fn p (Dir l es) s =
    (let e = (if l then None else Some ErrPermission)
     in case fn s p (Some (info_of (Dir l es))) e of
          (s1, e1) \<Rightarrow>
            if e \<noteq> None \<or> e1 \<noteq> None then (s1, e1)
            else walkNames fn p es s1)"
| "walkNames fn p [] s = (s, None)"
| "walkNames fn p ((x, c) # es) s =
    (case walk fn (p @ [x]) c s of
       (s1, None) \<Rightarrow> walkNames fn p es s1
     | (s1, Some e) \<Rightarrow>
         if IsDir (info_of c) \<and> e = SkipDir then walkNames fn p es s1
         else (s1, Some e))"

definition Walk :: "'s walkfn \<Rightarrow> path \<Rightarrow> node option \<Rightarrow> 's \<Rightarrow> 's \<times> err option" where
  "Walk fn p rt s =
     (case (case rt of
              None \<Rightarrow> fn s p None (Some ErrNotExist)
            | Some n \<Rightarrow> walk fn p n s) of
        (s1, e) \<Rightarrow> (s1, if e = Some SkipDir \<or> e = Some SkipAll then None else e))"

subsection \<open>\<^verbatim>\<open>scanFiles\<close>\<close>

text \<open>
  The struct \<^verbatim>\<open>FileInfo{Path, Size}\<close> of the scan. \<open>local\<close> is the directory
  \<^verbatim>\<open>%USERPROFILE%\AppData\Local\<close>; the two roots of the scan are
  \<^verbatim>\<open>VirtualStore\Windows\<close> and \<^verbatim>\<open>VirtualStore\<close> below it.

  The stop channel is closed at most once and stays closed. The walk polls it at the
  start of every callback, so what the walk sees of it is the number of polls that
  still find it open: \<open>None\<close> when nobody presses stop, \<open>Some k\<close> when the first
  \<open>k\<close> polls find it open and every later poll finds it closed. \<open>polls\<close> counts the
  polls so far.
\<close>

datatype FileInfo = FileInfo path nat

record scan_state =
  found :: "FileInfo list"
  polls :: nat

definition stopped :: "nat option \<Rightarrow> nat \<Rightarrow> bool" where
  "stopped stop k = (case stop of None \<Rightarrow> False | Some n \<Rightarrow> n \<le> k)"

text \<open>
  \<^verbatim>\<open>strings.ToLower\<close> on a name, which is a string of bytes in UTF-8. The letters
  \<open>A\<close> to \<open>Z\<close> become \<open>a\<close> to \<open>z\<close>. Two runes outside ASCII have an ASCII lower
  case: U+0130 (bytes C4 B0) becomes \<open>i\<close> and U+212A (bytes E2 84 AA) becomes \<open>k\<close>.
  Every other rune outside ASCII, and every byte that is not valid UTF-8, is mapped
  to a rune outside ASCII; such bytes are left as they are here, which does not
  change whether the result is an ASCII name such as \<^verbatim>\<open>ipcas2.ini\<close>.
\<close>

definition lowerASCII :: "char \<Rightarrow> char" where
  "lowerASCII c =
     (case map_of (zip ''ABCDEFGHIJKLMNOPQRSTUVWXYZ'' ''abcdefghijklmnopqrstuvwxyz'') c of
        None \<Rightarrow> c
      | Some l \<Rightarrow> l)"

fun ToLower :: "string \<Rightarrow> string" where
  "ToLower [] = []"
| "ToLower [a] = [lowerASCII a]"
| "ToLower [a, b] =
     (if a = CHR 0xC4 \<and> b = CHR 0xB0 then [CHR ''i'']
      else lowerASCII a # ToLower [b])"
| "ToLower (a # b # c # cs) =
     (if a = CHR 0xC4 \<and> b = CHR 0xB0 then CHR ''i'' # ToLower (c # cs)
      else if a = CHR 0xE2 \<and> b = CHR 0x84 \<and> c = CHR 0xAA then CHR ''k'' # ToLower cs
      else lowerASCII a # ToLower (b # c # cs))"

text \<open>\<^verbatim>\<open>filepath.Base\<close>, which is what \<^verbatim>\<open>info.Name()\<close> gives for a visited path.\<close>

definition Base :: "path \<Rightarrow> string" where
  "Base p = (case rev p of [] \<Rightarrow> ''.'' | x # xs \<Rightarrow> x)"

text \<open>
  \<^verbatim>\<open>isHidden\<close> of \<^verbatim>\<open>main.go\<close> drops the error of \<^verbatim>\<open>GetFileAttributes\<close>. When the
  attributes cannot be read the call returns \<^verbatim>\<open>INVALID_FILE_ATTRIBUTES\<close>
  (\<^verbatim>\<open>0xFFFFFFFF\<close>), whose bit \<^verbatim>\<open>FILE_ATTRIBUTE_HIDDEN\<close> is set, so the answer is true.
  The hidden attribute of a directory is not part of a tree; \<^verbatim>\<open>scanFiles\<close> asks
  only for files.
\<close>

definition isHidden :: "node option \<Rightarrow> path \<Rightarrow> bool" where
  "isHidden rt p =
     (case lookup rt p of
        Some (File h r w c) \<Rightarrow> h
      | Some (Dir l es) \<Rightarrow> False
      | None \<Rightarrow> True)"

definition scanFiles_fn :: "nat option \<Rightarrow> node option \<Rightarrow> scan_state walkfn" where
  "scanFiles_fn stop local s path d e =
     (let s1 = s\<lparr>polls := Suc (polls s)\<rparr>
      in if stopped stop (polls s) then (s1, Some SkipAll)
         else
           (case e of
              Some walkErr \<Rightarrow> (s1, None)
            | None \<Rightarrow>
               (case d of
                  None \<Rightarrow> (s1, Some NilDeref)
                | Some i \<Rightarrow>
                    if IsDir i then (s1, None)
                    else if ToLower (Base path) = ''ipcas2.ini'' \<and> isHidden local path
                    then (s1\<lparr>found := found s1 @ [FileInfo path (Size i)]\<rparr>, None)
                    else (s1, None))))"

definition scanRoot :: "nat option \<Rightarrow> node option \<Rightarrow> path \<Rightarrow> scan_state \<Rightarrow> scan_state" where
  "scanRoot stop local p s =
     (case stat local p of
        Inl e \<Rightarrow> s
      | Inr i \<Rightarrow> fst (Walk (scanFiles_fn stop local) p (lookup local p) s))"

definition scanFiles_run :: "nat option \<Rightarrow> node option \<Rightarrow> scan_state" where
  "scanFiles_run stop local =
     scanRoot stop local [''VirtualStore'']
       (scanRoot stop local [''VirtualStore'', ''Windows''] \<lparr>found = [], polls = 0\<rparr>)"

definition scanFiles :: "nat option \<Rightarrow> node option \<Rightarrow> FileInfo list" where
  "scanFiles stop local = found (scanFiles_run stop local)"

subsection \<open>The file list and the goroutine of the scan button in \<^verbatim>\<open>tabScan\<close>\<close>

text \<open>
  The rows of \<^verbatim>\<open>fileList\<close>. \<^verbatim>\<open>container.NewBorder(top, bottom, left, right, objects...)\<close>
  of the toolkit builds a container whose \<^verbatim>\<open>Objects\<close> are the centre objects
  followed by those of the four borders that are not nil. The row template is
  \<^verbatim>\<open>NewBorder(nil, nil, widget.NewCheck("", nil), nil, widget.NewLabel(""))\<close>.
\<close>

datatype widget = Check | Label

definition NewBorder ::
  "widget option \<Rightarrow> widget option \<Rightarrow> widget option \<Rightarrow> widget option \<Rightarrow> widget list \<Rightarrow> widget list" where
  "NewBorder t b l r objects =
     objects @ (case t of None \<Rightarrow> [] | Some x \<Rightarrow> [x])
             @ (case b of None \<Rightarrow> [] | Some x \<Rightarrow> [x])
             @ (case l of None \<Rightarrow> [] | Some x \<Rightarrow> [x])
             @ (case r of None \<Rightarrow> [] | Some x \<Rightarrow> [x])"

definition fileList_create :: "widget list" where
  "fileList_create = NewBorder None None (Some Check) None [Label]"

text \<open>
  The update callback of a row: nothing for an index past the list; otherwise the
  type assertions \<^verbatim>\<open>c.Objects[0].(*widget.Check)\<close> and
  \<^verbatim>\<open>c.Objects[1].(*widget.Label)\<close>, which panic on an object of another type.
\<close>

datatype panic = InterfaceConversion | IndexOutOfRange

definition fileList_update :: "'a list \<Rightarrow> nat \<Rightarrow> widget list \<Rightarrow> panic option" where
  "fileList_update fs i objects =
     (if i \<ge> length fs then None
      else
        (case objects of
           [] \<Rightarrow> Some IndexOutOfRange
         | Label # rest \<Rightarrow> Some InterfaceConversion
         | Check # rest \<Rightarrow>
             (case rest of
                [] \<Rightarrow> Some IndexOutOfRange
              | Check # rest' \<Rightarrow> Some InterfaceConversion
              | Label # rest' \<Rightarrow> None)))"

text \<open>\<^verbatim>\<open>fileList.Refresh()\<close> on the visible scan tab: the list draws its rows from the
  first on, calling the update callback on a row made from the template; the first
  panic ends the program.\<close>

fun fileList_rows :: "'a list \<Rightarrow> nat list \<Rightarrow> panic option" where
  "fileList_rows fs [] = None"
| "fileList_rows fs (i # rest) =
     (case fileList_update fs i fileList_create of
        Some p \<Rightarrow> Some p
      | None \<Rightarrow> fileList_rows fs rest)"

definition fileList_Refresh :: "'a list \<Rightarrow> panic option" where
  "fileList_Refresh fs = fileList_rows fs [0 ..< length fs]"

text \<open>The global \<^verbatim>\<open>files\<close> (each item a \<^verbatim>\<open>FileItem{info, selected}\<close>) and the two
  labels, as the goroutine leaves them when \<^verbatim>\<open>scanFiles\<close> has returned, and the
  panic of its last statement \<^verbatim>\<open>fileList.Refresh()\<close> if there is one.\<close>

datatype scan_status =
    ScanNothingFound            \<comment> \<open>"Khong tim thay file IPCAS2.ini an"\<close>
  | ScanDone                    \<comment> \<open>"Hoan tat (%.1fs)"\<close>

record scan_ui =
  files :: "(FileInfo \<times> bool) list"
  statusLbl :: scan_status
  countLbl :: nat
  panicked :: "panic option"

definition tabScan_scan :: "nat option \<Rightarrow> node option \<Rightarrow> scan_ui" where
  "tabScan_scan stop local =
     (let r = scanFiles stop local;
          fs = map (\<lambda>f. (f, False)) r;
          u = (if length fs = 0
               then \<lparr>files = fs, statusLbl = ScanNothingFound, countLbl = 0, panicked = None\<rparr>
               else \<lparr>files = fs, statusLbl = ScanDone, countLbl = length fs, panicked = None\<rparr>)
      in u\<lparr>panicked := fileList_Refresh fs\<rparr>)"

section \<open>The regular files of a tree and the reasons of the specification\<close>

text \<open>
  The specification's enumeration of a tree: every regular file under a root, with
  its path, directory by directory in listing order. \<open>visit\<close> is one call of a
  walk callback on such a file.
\<close>

fun files_of :: "path \<Rightarrow> node \<Rightarrow> (path \<times> node) list"
and files_of_entries :: "path \<Rightarrow> (string \<times> node) list \<Rightarrow> (path \<times> node) list" where
  "files_of p (File h r w c) = [(p, File h r w c)]"
| "files_of p (Dir l es) = files_of_entries p es"
| "files_of_entries p [] = []"
| "files_of_entries p ((x, c) # es) = files_of (p @ [x]) c @ files_of_entries p es"

definition regular_files :: "node option \<Rightarrow> (path \<times> node) list" where
  "regular_files rt = (case rt of None \<Rightarrow> [] | Some n \<Rightarrow> files_of [] n)"

definition visit :: "'s walkfn \<Rightarrow> 's \<Rightarrow> path \<times> node \<Rightarrow> 's" where
  "visit fn s pf = fst (fn s (fst pf) (Some (info_of (snd pf))) None)"

text \<open>
  The three reasons of the specification's change entry, decided for a source file
  \<open>f\<close> at path \<open>p\<close>: the target cannot be found by \<^verbatim>\<open>os.Stat\<close>; the sizes differ;
  the sizes are equal, both files can be read and their digests differ. \<open>None\<close>
  means no entry. \<open>hash_reads\<close> lists the files whose content is read for \<open>p\<close>.
\<close>

datatype reason = Missing | SizeMismatch | ContentMismatch

definition diff_reason ::
  "(bytes \<Rightarrow> 'h) \<Rightarrow> node option \<Rightarrow> node option \<Rightarrow> path \<Rightarrow> node \<Rightarrow> reason option" where
  "diff_reason md5 src tgt p f =
     (case lookup tgt p of
        None \<Rightarrow> Some Missing
      | Some t \<Rightarrow>
          if Size (info_of f) \<noteq> Size (info_of t) then Some SizeMismatch
          else
            (case readFile src p of
               Inl e \<Rightarrow> None
             | Inr a \<Rightarrow>
                (case readFile tgt p of
                   Inl e \<Rightarrow> None
                 | Inr b \<Rightarrow> if md5 a \<noteq> md5 b then Some ContentMismatch else None)))"

definition hash_reads :: "node option \<Rightarrow> path \<Rightarrow> node \<Rightarrow> loc list" where
  "hash_reads tgt p f =
     (case lookup tgt p of
        None \<Rightarrow> []
      | Some t \<Rightarrow>
          if Size (info_of f) \<noteq> Size (info_of t) then []
          else [InSource p, InTarget p])"

text \<open>In a real directory no two entries have the same name.\<close>

fun wf_node :: "node \<Rightarrow> bool"
and wf_entries :: "(string \<times> node) list \<Rightarrow> bool" where
  "wf_node (File h r w c) = True"
| "wf_node (Dir l es) = (distinct (map fst es) \<and> wf_entries es)"
| "wf_entries [] = True"
| "wf_entries ((x, c) # es) = (wf_node c \<and> wf_entries es)"

definition wf_root :: "node option \<Rightarrow> bool" where
  "wf_root rt = (case rt of None \<Rightarrow> True | Some n \<Rightarrow> wf_node n)"

text \<open>The lines \<^verbatim>\<open>doCheck\<close> writes for a change set, according to the specification
  (at most ten items, then a count of the rest).\<close>

definition check_lines :: "path list \<Rightarrow> logmsg list" where
  "check_lines fs =
     (if fs = [] then [LogNoFiles]
      else LogHaveFiles (length fs) # map LogItem (take 10 fs)
           @ (if length fs > 10 then [LogMore (length fs - 10)] else []))"

text \<open>
  What the specification expects of one entry of Apply and of Restore, on the state
  the earlier entries have left: the line that is logged for it.
\<close>

definition entry_result :: "world \<Rightarrow> path \<Rightarrow> logmsg" where
  "entry_result w relPath =
     (case readFile (source w) relPath of
        Inl e \<Rightarrow> LogReadErr relPath
      | Inr data \<Rightarrow>
          (case writeFile (mkdirParent (target w) relPath) relPath data of
             Inl e \<Rightarrow> LogWriteErr relPath
           | Inr t \<Rightarrow> LogUpdated relPath))"

definition zentry_result :: "zentry \<Rightarrow> logmsg" where
  "zentry_result z =
     (case snd z of
        ZOpenErr \<Rightarrow> LogOpenErr (fst z)
      | ZReadErr \<Rightarrow> LogZipReadErr (fst z)
      | ZData data \<Rightarrow> LogRestored (fst z))"

text \<open>The names of a backup directory are distinct.\<close>

definition wf_bdir :: "bdir \<Rightarrow> bool" where
  "wf_bdir bd =
     (case bd of
        BackupDir es \<Rightarrow> distinct (map fst es)
      | BackupMissing \<Rightarrow> True
      | BackupBlocked \<Rightarrow> True)"

text \<open>Creating backups in sequence, at the given time stamps.\<close>

fun createBackups :: "string list \<Rightarrow> world \<Rightarrow> world" where
  "createBackups [] w = w"
| "createBackups (now # rest) w = createBackups rest (fst (createBackup now w))"

text \<open>
  What stands at a path of a tree: nothing, a file (whether it can be overwritten,
  and its bytes) or a directory. \<open>file_at\<close> is the content of the file at a path:
  the file set and the file contents of a tree are the map \<open>file_at rt\<close>.
\<close>

datatype kind = KNone | KFile bool bytes | KDir

definition kind_at :: "node option \<Rightarrow> path \<Rightarrow> kind" where
  "kind_at rt q =
     (case lookup rt q of
        None \<Rightarrow> KNone
      | Some (File h r w c) \<Rightarrow> KFile w c
      | Some (Dir l es) \<Rightarrow> KDir)"

definition file_at :: "node option \<Rightarrow> path \<Rightarrow> bytes option" where
  "file_at rt q =
     (case lookup rt q of
        None \<Rightarrow> None
      | Some (File h r w c) \<Rightarrow> Some c
      | Some (Dir l es) \<Rightarrow> None)"

text \<open>
  The two calls \<^verbatim>\<open>os.MkdirAll(filepath.Dir(dst), 0755)\<close> and
  \<^verbatim>\<open>os.WriteFile(dst, data, 0644)\<close> with both errors dropped, as \<^verbatim>\<open>doRestore\<close>
  makes them: \<open>put\<close> is the tree they leave, \<open>can_write\<close> says that the write
  succeeds.
\<close>

definition put :: "node option \<Rightarrow> path \<Rightarrow> bytes \<Rightarrow> node option" where
  "put rt p data =
     (case writeFile (mkdirParent rt p) p data of
        Inl e \<Rightarrow> mkdirParent rt p
      | Inr t \<Rightarrow> Some t)"

definition can_write :: "node option \<Rightarrow> path \<Rightarrow> bool" where
  "can_write rt p =
     (case writeFile (mkdirParent rt p) p [] of Inl e \<Rightarrow> False | Inr t \<Rightarrow> True)"

text \<open>A path is free for a file in a tree when no file stands at a proper prefix of
  it and the path itself holds nothing or a file that can be overwritten.\<close>

definition free_for :: "node option \<Rightarrow> path \<Rightarrow> bool" where
  "free_for rt p =
     ((\<forall>r w c. strict_prefix r p \<longrightarrow> kind_at rt r \<noteq> KFile w c)
      \<and> (kind_at rt p = KNone \<or> (\<exists>c. kind_at rt p = KFile True c)))"

text \<open>The bytes \<^verbatim>\<open>createBackup\<close> stores for a file of the tree: its content, or
  nothing when it cannot be read.\<close>

definition stored_bytes :: "node option \<Rightarrow> path \<Rightarrow> bytes" where
  "stored_bytes rt p = (case readFile rt p of Inl e \<Rightarrow> [] | Inr data \<Rightarrow> data)"

text \<open>The round trip of the specification: a backup is created, the installation is
  mutated into the tree \<open>M\<close>, the new backup is selected in the list, and Restore
  runs.\<close>

definition backup_mutate_restore :: "string \<Rightarrow> node option \<Rightarrow> world \<Rightarrow> world" where
  "backup_mutate_restore now M w =
     (let w1 = fst (createBackup now w)
      in doRestore (w1\<lparr>target := M, gui := (gui w1)\<lparr>backupSelected := backupName now\<rparr>\<rparr>))"

text \<open>
  What Apply does to the target for one entry of the change set, stated on the
  trees alone: the parent directories are made; when the source file can be read
  its bytes are written over the target path (\<open>put\<close>, which leaves the tree with
  the new directories when the write fails).
\<close>

definition copy_entry :: "node option \<Rightarrow> node option \<Rightarrow> path \<Rightarrow> node option" where
  "copy_entry src tgt p =
     (case readFile src p of
        Inl e \<Rightarrow> mkdirParent tgt p
      | Inr data \<Rightarrow> put tgt p data)"

text \<open>
  The nodes under a root in the order in which \<^verbatim>\<open>filepath.Walk\<close> visits them: a
  directory, then (when it can be listed) what its entries hold, entry by entry.
  \<open>scan_visits\<close> is this sequence for the two roots of the scan, one after the
  other; a root that \<^verbatim>\<open>os.Stat\<close> does not find contributes nothing.
\<close>

fun nodes_of :: "path \<Rightarrow> node \<Rightarrow> (path \<times> node) list"
and nodes_of_entries :: "path \<Rightarrow> (string \<times> node) list \<Rightarrow> (path \<times> node) list" where
  "nodes_of p (File h r w c) = [(p, File h r w c)]"
| "nodes_of p (Dir l es) = (p, Dir l es) # (if l then nodes_of_entries p es else [])"
| "nodes_of_entries p [] = []"
| "nodes_of_entries p ((x, c) # es) = nodes_of (p @ [x]) c @ nodes_of_entries p es"

definition root_visits :: "node option \<Rightarrow> path \<Rightarrow> (path \<times> node) list" where
  "root_visits local p = (case lookup local p of None \<Rightarrow> [] | Some n \<Rightarrow> nodes_of p n)"

definition scan_visits :: "node option \<Rightarrow> (path \<times> node) list" where
  "scan_visits local =
     root_visits local [''VirtualStore'', ''Windows''] @ root_visits local [''VirtualStore'']"

text \<open>The entry the scan collects at a visited node: one for a file that is named
  \<^verbatim>\<open>ipcas2.ini\<close> up to case and is hidden, none otherwise.\<close>

definition scan_match :: "node option \<Rightarrow> path \<times> node \<Rightarrow> FileInfo list" where
  "scan_match local pn =
     (if \<not> IsDir (info_of (snd pn)) \<and> ToLower (Base (fst pn)) = ''ipcas2.ini''
         \<and> isHidden local (fst pn)
      then [FileInfo (fst pn) (Size (info_of (snd pn)))]
      else [])"

text \<open>The visits that are made before the stop channel is seen closed, out of the
  visits \<open>vs\<close> that start when \<open>j\<close> polls have been made.\<close>

definition visits_before :: "nat option \<Rightarrow> nat \<Rightarrow> 'a list \<Rightarrow> 'a list" where
  "visits_before stop j vs = (case stop of None \<Rightarrow> vs | Some k \<Rightarrow> take (k - j) vs)"

section \<open>The initial state of the update tab\<close>

text \<open>The widgets as \<^verbatim>\<open>tabUpdate\<close> creates them: an empty log, the status "San sang",
  no backup listed or selected.\<close>

definition ui0 :: ui where
  "ui0 = \<lparr>log = [], status = StReady, progress = [], dialogs = [],
          backupOptions = [], backupSelected = []\<rparr>"

section \<open>Example trees\<close>

text \<open>The scenario of the specification: the source holds \<^verbatim>\<open>a.txt\<close> = "1" and
  \<^verbatim>\<open>sub/b.txt\<close> = "22", the target only \<^verbatim>\<open>a.txt\<close> = "1".\<close>

definition ex_src :: "node option" where
  "ex_src = Some (Dir True [(''a.txt'', File False True True ''1''),
                            (''sub'', Dir True [(''b.txt'', File False True True ''22'')])])"

definition ex_tgt :: "node option" where
  "ex_tgt = Some (Dir True [(''a.txt'', File False True True ''1'')])"

text \<open>A source with one file, and a target whose copy has the same size and other
  bytes but cannot be read (locked by another process).\<close>

definition ex_src_one :: "node option" where
  "ex_src_one = Some (Dir True [(''a.txt'', File False True True ''1'')])"

definition ex_tgt_locked :: "node option" where
  "ex_tgt_locked = Some (Dir True [(''a.txt'', File False False True ''2'')])"

text \<open>A source whose \<^verbatim>\<open>a.txt\<close> cannot be read, next to an empty installation.\<close>

definition ex_world :: world where
  "ex_world =
     \<lparr>source = Some (Dir True [(''a.txt'', File False False True ''1''),
                               (''b.txt'', File False True True ''22'')]),
      target = Some (Dir True []),
      backups = BackupMissing,
      gui = ui0\<rparr>"

text \<open>A source whose \<^verbatim>\<open>a.txt\<close> cannot be read, next to an installation whose
  \<^verbatim>\<open>b.txt\<close> cannot be overwritten.\<close>

definition ex_partial_world :: world where
  "ex_partial_world =
     \<lparr>source = Some (Dir True [(''a.txt'', File False False True ''1''),
                               (''b.txt'', File False True True ''22''),
                               (''c.txt'', File False True True ''333'')]),
      target = Some (Dir True [(''b.txt'', File False True False ''old'')]),
      backups = BackupMissing,
      gui = ui0\<rparr>"

text \<open>An installation with one selected backup whose second entry cannot be
  opened.\<close>

definition ex_zip :: "zentry list" where
  "ex_zip = [([''a.txt''], ZData ''1''), ([''bad''], ZOpenErr), ([''b.txt''], ZData ''22'')]"

definition ex_restore_world :: world where
  "ex_restore_world =
     \<lparr>source = None,
      target = Some (Dir True []),
      backups = BackupDir [(''BK_20240101_120000.zip'', Zip ex_zip)],
      gui = ui0\<lparr>backupSelected := ''BK_20240101_120000.zip''\<rparr>\<rparr>"

text \<open>The scenario of the specification for retention: four backups B1 (oldest) to
  B4 (newest) are in the backup directory when the next one is created.\<close>

definition ex_backup_world :: world where
  "ex_backup_world =
     \<lparr>source = None,
      target = ex_tgt,
      backups = BackupDir [(''BK_20240101_000001.zip'', Zip []),
                           (''BK_20240101_000002.zip'', Zip []),
                           (''BK_20240101_000003.zip'', Zip []),
                           (''BK_20240101_000004.zip'', Zip [])],
      gui = ui0\<rparr>"

text \<open>A backup directory that holds three archives with time stamps of the year 2025
  (the clock has since been set back, or they were copied there by hand).\<close>

definition ex_later_world :: world where
  "ex_later_world =
     \<lparr>source = None,
      target = ex_tgt,
      backups = BackupDir [(''BK_20250101_000001.zip'', Zip []),
                           (''BK_20250101_000002.zip'', Zip []),
                           (''BK_20250101_000003.zip'', Zip [])],
      gui = ui0\<rparr>"

text \<open>A profile whose \<^verbatim>\<open>VirtualStore\Windows\<close> holds a hidden \<^verbatim>\<open>IPCAS2.ini\<close> and,
  one directory deeper, a second one.\<close>

definition ex_local :: "node option" where
  "ex_local =
     Some (Dir True
       [(''VirtualStore'', Dir True
          [(''Windows'', Dir True
             [(''IPCAS2.ini'', File True True True ''x''),
              (''more'', Dir True [(''ipcas2.ini'', File True True True ''yy'')])])])])"

text \<open>The installation of the retention scenario after a mutation: \<^verbatim>\<open>a.txt\<close> has
  other bytes and \<^verbatim>\<open>b.txt\<close> is new.\<close>

definition ex_mutated :: "node option" where
  "ex_mutated = Some (Dir True [(''a.txt'', File False True True ''9''),
                                (''b.txt'', File False True True ''2'')])"

section \<open>Directory listings\<close>

lemma map_fst_insort_key:
  "map fst (insort_key fst (x, c) es) = insort x (map fst es)"
  by (induction es) auto

lemma set_fst_ins: "fst ` set (ins x c es) = insert x (fst ` set es)"
proof (cases "x \<in> fst ` set es")
  case True
  have "fst ` set (map (\<lambda>e. if fst e = x then (x, c) else e) es) = fst ` set es"
    by (induction es) auto
  then show ?thesis using True by (auto simp: ins_def)
next
  case False
  have "set (map fst (insort_key fst (x, c) es)) = insert x (set (map fst es))"
    unfolding map_fst_insort_key by (simp add: set_insort_key)
  then show ?thesis using False by (simp add: ins_def)
qed

lemma map_fst_replace:
  "map fst (map (\<lambda>e. if fst e = x then (x, c) else e) es) = map fst es"
  by (induction es) auto

lemma distinct_ins: "distinct (map fst es) \<Longrightarrow> distinct (map fst (ins x c es))"
proof (cases "x \<in> fst ` set es")
  case True
  then have "ins x c es = map (\<lambda>e. if fst e = x then (x, c) else e) es"
    by (simp add: ins_def)
  then show "distinct (map fst es) \<Longrightarrow> ?thesis"
    by (simp only: map_fst_replace)
next
  case False
  assume "distinct (map fst es)"
  then have "distinct (insort x (map fst es))" using False by (simp add: distinct_insort)
  then show ?thesis using False by (simp add: ins_def map_fst_insort_key)
qed

lemma map_of_replace:
  "map_of (map (\<lambda>e. if fst e = x then (x, c) else e) es) y
     = (if y = x \<and> x \<in> fst ` set es then Some c else map_of es y)"
proof (induction es)
  case Nil
  then show ?case by simp
next
  case (Cons e es)
  obtain a b where e: "e = (a, b)" by (cases e)
  show ?case
  proof (cases "x \<in> fst ` set es")
    case True
    then show ?thesis using Cons.IH by (auto simp: e)
  next
    case False
    then show ?thesis using Cons.IH by (auto simp: e)
  qed
qed

lemma map_of_insort_key:
  "x \<notin> fst ` set es \<Longrightarrow> map_of (insort_key fst (x, c) es) y = ((map_of es)(x \<mapsto> c)) y"
  by (induction es) auto

lemma map_of_ins: "map_of (ins x c es) = (map_of es)(x \<mapsto> c)"
proof (cases "x \<in> fst ` set es")
  case True
  then show ?thesis by (auto simp: ins_def fun_eq_iff map_of_replace)
next
  case False
  then show ?thesis by (auto simp: ins_def fun_eq_iff map_of_insort_key)
qed


section \<open>The walk callback never fails\<close>

lemma getFilesToUpdate_fn_err:
  "getFilesToUpdate_fn md5 src tgt s p (Some i) e = (s', r) \<Longrightarrow> r = None"
  by (auto simp: getFilesToUpdate_fn_def Let_def split: option.splits sum.splits if_splits)

lemma walkDir_no_err:
  fixes fn :: "'s walkfn"
  assumes fn: "\<And>s p i e s' r. fn s p (Some i) e = (s', r) \<Longrightarrow> r = None"
  shows "snd (walkDir fn p n s) = None" and "snd (walkDirEntries fn p es s) = None"
  using fn
proof (induction fn p n s and fn p es s rule: walkDir_walkDirEntries.induct)
  case (1 fn p h r w c s)
  obtain s1 r1 where a: "fn s p (Some (info_of (File h r w c))) None = (s1, r1)"
    by (cases "fn s p (Some (info_of (File h r w c))) None")
  have "r1 = None" using a "1.prems" by blast
  then show ?case using a by simp
next
  case (2 fn p l es s)
  obtain s1 r1 where a: "fn s p (Some (info_of (Dir l es))) None = (s1, r1)"
    by (cases "fn s p (Some (info_of (Dir l es))) None")
  have r1: "r1 = None" using a "2.prems" by blast
  obtain s2 r2 where b:
    "(if l then (s1, None) else fn s1 p (Some (info_of (Dir l es))) (Some ErrPermission)) = (s2, r2)"
    by (cases "(if l then (s1, None) else fn s1 p (Some (info_of (Dir l es))) (Some ErrPermission))")
  have r2: "r2 = None" using b "2.prems" by (auto split: if_splits)
  have "snd (walkDirEntries fn p es s2) = None"
    using "2.IH" [OF a [symmetric] r1 b [symmetric] r2] "2.prems" by blast
  then show ?case using a r1 b r2 by simp
next
  case (3 fn p s)
  then show ?case by simp
next
  case (4 fn p x c es s)
  obtain s1 r1 where a: "walkDir fn (p @ [x]) c s = (s1, r1)"
    by (cases "walkDir fn (p @ [x]) c s")
  have "snd (walkDir fn (p @ [x]) c s) = None" using "4.IH"(1) "4.prems" by blast
  then have r1: "r1 = None" using a by simp
  have "snd (walkDirEntries fn p es s1) = None"
    using "4.IH"(2) [OF a [symmetric] r1] "4.prems" by blast
  then show ?case using a r1 by simp
qed

lemma getFilesToUpdate_run_no_err: "snd (getFilesToUpdate_run md5 src tgt) = None"
proof (cases src)
  case None
  then show ?thesis
    by (simp add: getFilesToUpdate_run_def WalkDir_def getFilesToUpdate_fn_def)
next
  case (Some n)
  have "snd (walkDir (getFilesToUpdate_fn md5 src tgt) [] n \<lparr>toUpdate = [], hashed = []\<rparr>) = None"
    by (rule walkDir_no_err(1)) (rule getFilesToUpdate_fn_err)
  then show ?thesis
    using Some by (auto simp: getFilesToUpdate_run_def WalkDir_def split: prod.splits)
qed


lemma getFilesToUpdate_no_err: "snd (getFilesToUpdate md5 src tgt) = None"
  using getFilesToUpdate_run_no_err [of md5 src tgt]
  by (auto simp: getFilesToUpdate_def split: prod.splits)

subsection \<open>What the callers do with the error\<close>

lemma status_addLog [simp]: "status (addLog m u) = status u"
  by (simp add: addLog_def)

lemma status_setStatus [simp]: "status (setStatus st u) = st"
  by (simp add: setStatus_def)

lemma status_setProgress [simp]: "status (setProgress v u) = status u"
  by (simp add: setProgress_def)

lemma status_showMsg [simp]: "status (showMsg d u) = status u"
  by (simp add: showMsg_def)

lemma status_refreshBackups [simp]: "status (gui (refreshBackups w)) = status (gui w)"
  by (simp add: refreshBackups_def Let_def split: list.splits)

lemma status_launchIPCAS [simp]: "status (gui (launchIPCAS w)) = status (gui w)"
  by (simp add: launchIPCAS_def split: sum.splits)

lemma status_performFilesUpdate: "status (gui (performFilesUpdate elapsed fs w)) = StUpdateDone"
  by (simp add: performFilesUpdate_def Let_def)

lemma status_doCheck:
  "status (doCheck md5 src tgt u) =
     (case fst (getFilesToUpdate md5 src tgt) of [] \<Rightarrow> StUpToDate | f # fs \<Rightarrow> StNeedUpdate (Suc (length fs)))"
proof -
  obtain fs e where g: "getFilesToUpdate md5 src tgt = (fs, e)"
    by (cases "getFilesToUpdate md5 src tgt")
  have "e = None" using getFilesToUpdate_no_err [of md5 src tgt] g by simp
  then show ?thesis using g by (cases fs) (simp_all add: doCheck_def Let_def)
qed

lemma status_doUpdate: "status (gui (doUpdate md5 ch now elapsed w)) \<noteq> StConnError"
proof -
  obtain fs e where g: "getFilesToUpdate md5 (source w) (target w) = (fs, e)"
    by (cases "getFilesToUpdate md5 (source w) (target w)")
  have e: "e = None" using getFilesToUpdate_no_err [of md5 "source w" "target w"] g by simp
  show ?thesis
  proof (cases fs)
    case Nil
    then show ?thesis using g e by (simp add: doUpdate_def Let_def)
  next
    case (Cons f fs')
    then show ?thesis using g e
      by (cases ch)
         (simp_all add: doUpdate_def Let_def status_performFilesUpdate saveConfig_def
            split: prod.splits option.splits)
  qed
qed

section \<open>Claims about the error of the differ\<close>

text \<open>
  C10. For every source and target, also a source root that does not exist,
  \<^verbatim>\<open>getFilesToUpdate\<close> returns a nil error, because its walk callback answers every
  walk error with nil. So the branch of \<^verbatim>\<open>doCheck\<close> and of \<^verbatim>\<open>doUpdate\<close> that
  shows the connection error is never taken.
\<close>

theorem getFilesToUpdate_error_is_nil:
  "snd (getFilesToUpdate md5 src tgt) = None
   \<and> status (doCheck md5 src tgt u) \<noteq> StConnError
   \<and> status (gui (doUpdate md5 ch now elapsed w)) \<noteq> StConnError"
proof -
  have "status (doCheck md5 src tgt u) \<noteq> StConnError"
    by (simp add: status_doCheck split: list.splits)
  then show ?thesis
    using getFilesToUpdate_no_err [of md5 src tgt] status_doUpdate [of md5 ch now elapsed w]
    by simp
qed

theorem getFilesToUpdate_error_is_nil_witness:
  "snd (getFilesToUpdate (\<lambda>d. d) None None) = None
   \<and> status (doCheck (\<lambda>d. d) None None ui0) \<noteq> StConnError
   \<and> status (gui (doUpdate (\<lambda>d. d) UpdateOnly ''20240101_120000'' 0
        \<lparr>source = None, target = None, backups = BackupMissing, gui = ui0\<rparr>)) \<noteq> StConnError"
  by (rule getFilesToUpdate_error_is_nil)

text \<open>
  C2. The claim asks that a check of an unreachable source fails with a connection
  error. Evaluated on a source root that does not exist, \<^verbatim>\<open>getFilesToUpdate\<close>
  returns the empty change set and no error, and \<^verbatim>\<open>doCheck\<close> reports that the
  installation is up to date.
\<close>

theorem doCheck_unreachable_source_up_to_date:
  "getFilesToUpdate md5 None tgt = ([], None)
   \<and> status (doCheck md5 None tgt ui0) = StUpToDate
   \<and> log (doCheck md5 None tgt ui0) = [LogSavedConfig, LogNoFiles]"
proof -
  have g: "getFilesToUpdate md5 None tgt = ([], None)"
    by (simp add: getFilesToUpdate_def getFilesToUpdate_run_def WalkDir_def getFilesToUpdate_fn_def)
  show ?thesis
    by (simp add: g doCheck_def Let_def ui0_def saveConfig_def addLog_def setStatus_def
          setProgress_def)
qed

section \<open>The walk visits the regular files in order\<close>

lemma files_of_are_files:
  "pf \<in> set (files_of p n) \<Longrightarrow> \<not> IsDir (info_of (snd pf))"
  "pf \<in> set (files_of_entries p es) \<Longrightarrow> \<not> IsDir (info_of (snd pf))"
  by (induction p n and p es rule: files_of_files_of_entries.induct) auto

lemma walkDir_visits_files:
  fixes fn :: "'s walkfn"
  assumes dir: "\<And>s p i e. IsDir i \<Longrightarrow> fn s p (Some i) e = (s, None)"
      and fil: "\<And>s p i. \<not> IsDir i \<Longrightarrow> snd (fn s p (Some i) None) = None"
  shows "walkDir fn p n s = (foldl (visit fn) s (files_of p n), None)"
    and "walkDirEntries fn p es s = (foldl (visit fn) s (files_of_entries p es), None)"
  using dir fil
proof (induction fn p n s and fn p es s rule: walkDir_walkDirEntries.induct)
  case (1 fn p h r w c s)
  have "snd (fn s p (Some (info_of (File h r w c))) None) = None"
    using "1.prems"(2) by simp
  then show ?case by (simp add: visit_def prod_eq_iff)
next
  case (2 fn p l es s)
  have a: "fn s p (Some (info_of (Dir l es))) None = (s, None)"
    using "2.prems"(1) by simp
  have b: "(if l then (s, None) else fn s p (Some (info_of (Dir l es))) (Some ErrPermission)) = (s, None)"
    using "2.prems"(1) by simp
  have "walkDirEntries fn p es s = (foldl (visit fn) s (files_of_entries p es), None)"
    using "2.IH" [OF a [symmetric] refl b [symmetric] refl] "2.prems" by blast
  then show ?case using a b by simp
next
  case (3 fn p s)
  then show ?case by simp
next
  case (4 fn p x c es s)
  have a: "walkDir fn (p @ [x]) c s = (foldl (visit fn) s (files_of (p @ [x]) c), None)"
    using "4.IH"(1) "4.prems" by blast
  have "walkDirEntries fn p es (foldl (visit fn) s (files_of (p @ [x]) c))
        = (foldl (visit fn) (foldl (visit fn) s (files_of (p @ [x]) c)) (files_of_entries p es), None)"
    using "4.IH"(2) [OF a [symmetric] refl] "4.prems" by blast
  then show ?case using a by simp
qed

lemma WalkDir_visits_files:
  fixes fn :: "'s walkfn"
  assumes dir: "\<And>s p i e. IsDir i \<Longrightarrow> fn s p (Some i) e = (s, None)"
      and fil: "\<And>s p i. \<not> IsDir i \<Longrightarrow> snd (fn s p (Some i) None) = None"
      and nil: "\<And>s p e. fn s p None (Some e) = (s, None)"
  shows "WalkDir fn rt s = (foldl (visit fn) s (regular_files rt), None)"
proof (cases rt)
  case None
  then show ?thesis by (simp add: WalkDir_def regular_files_def nil)
next
  case (Some n)
  have "walkDir fn [] n s = (foldl (visit fn) s (files_of [] n), None)"
    using dir fil by (rule walkDir_visits_files(1))
  then show ?thesis using Some
    by (simp add: WalkDir_def regular_files_def)
qed

lemma visit_getFilesToUpdate_fn:
  assumes "\<not> IsDir (info_of f)"
  shows "visit (getFilesToUpdate_fn md5 src tgt) s (p, f) =
     s\<lparr>toUpdate := toUpdate s @ (if diff_reason md5 src tgt p f \<noteq> None then [p] else []),
       hashed := hashed s @ hash_reads tgt p f\<rparr>"
  using assms
  by (auto simp: visit_def getFilesToUpdate_fn_def diff_reason_def hash_reads_def stat_def
        fileHash_def Let_def split: option.splits sum.splits)

lemma foldl_visit_getFilesToUpdate_fn:
  assumes "\<forall>pf \<in> set xs. \<not> IsDir (info_of (snd pf))"
  shows "foldl (visit (getFilesToUpdate_fn md5 src tgt)) s xs =
     s\<lparr>toUpdate := toUpdate s @ map fst (filter (\<lambda>(p, f). diff_reason md5 src tgt p f \<noteq> None) xs),
       hashed := hashed s @ concat (map (\<lambda>(p, f). hash_reads tgt p f) xs)\<rparr>"
  using assms
proof (induction xs arbitrary: s)
  case Nil
  then show ?case by simp
next
  case (Cons pf xs)
  obtain p f where pf: "pf = (p, f)" by (cases pf)
  have nd: "\<not> IsDir (info_of f)" using Cons.prems pf by simp
  show ?case
    using Cons.prems pf
    by (simp add: Cons.IH visit_getFilesToUpdate_fn [OF nd])
qed

section \<open>Paths of a well-formed tree\<close>

lemma files_of_prefix:
  "q \<in> fst ` set (files_of p n) \<Longrightarrow> \<exists>r. q = p @ r"
  "q \<in> fst ` set (files_of_entries p es) \<Longrightarrow> \<exists>x r. x \<in> fst ` set es \<and> q = p @ x # r"
proof (induction p n and p es arbitrary: q and q rule: files_of_files_of_entries.induct)
  case (1 p h r w c)
  then show ?case by simp
next
  case (2 p l es)
  then show ?case by fastforce
next
  case (3 p)
  then show ?case by simp
next
  case (4 p x c es)
  from "4.prems" consider "q \<in> fst ` set (files_of (p @ [x]) c)" | "q \<in> fst ` set (files_of_entries p es)"
    by auto
  then show ?case
  proof cases
    case 1
    then obtain r where "q = (p @ [x]) @ r" using "4.IH"(1) by blast
    then show ?thesis by auto
  next
    case 2
    then obtain y r where "y \<in> fst ` set es" "q = p @ y # r" using "4.IH"(2) by blast
    then show ?thesis by auto
  qed
qed

lemma files_of_distinct:
  "wf_node n \<Longrightarrow> distinct (map fst (files_of p n))"
  "distinct (map fst es) \<Longrightarrow> wf_entries es \<Longrightarrow> distinct (map fst (files_of_entries p es))"
proof (induction p n and p es rule: files_of_files_of_entries.induct)
  case (1 p h r w c)
  then show ?case by simp
next
  case (2 p l es)
  then show ?case by simp
next
  case (3 p)
  then show ?case by simp
next
  case (4 p x c es)
  have d1: "distinct (map fst (files_of (p @ [x]) c))" using 4 by simp
  have d2: "distinct (map fst (files_of_entries p es))" using 4 by simp
  have disj: "fst ` set (files_of (p @ [x]) c) \<inter> fst ` set (files_of_entries p es) = {}"
  proof (rule ccontr)
    assume "\<not> ?thesis"
    then obtain q where q1: "q \<in> fst ` set (files_of (p @ [x]) c)"
      and q2: "q \<in> fst ` set (files_of_entries p es)" by blast
    obtain r where r: "q = (p @ [x]) @ r" using files_of_prefix(1) [OF q1] by blast
    obtain y r' where y: "y \<in> fst ` set es" "q = p @ y # r'" using files_of_prefix(2) [OF q2] by blast
    from r y have "x = y" by simp
    then show False using y(1) "4.prems"(1) by simp
  qed
  show ?case using d1 d2 disj by simp
qed

lemma regular_files_distinct: "wf_root rt \<Longrightarrow> distinct (map fst (regular_files rt))"
  by (cases rt) (simp_all add: regular_files_def wf_root_def files_of_distinct(1))

lemma files_of_lookup:
  "wf_node n \<Longrightarrow> (q, f) \<in> set (files_of p n) \<Longrightarrow> \<exists>r. q = p @ r \<and> lookup (Some n) r = Some f"
  "distinct (map fst es) \<Longrightarrow> wf_entries es \<Longrightarrow> (q, f) \<in> set (files_of_entries p es)
     \<Longrightarrow> \<exists>x r. q = p @ x # r \<and> lookup (map_of es x) r = Some f"
proof (induction p n and p es arbitrary: q f and q f rule: files_of_files_of_entries.induct)
  case (1 p h r w c)
  then show ?case by simp
next
  case (2 p l es)
  then obtain x r where "q = p @ x # r" "lookup (map_of es x) r = Some f" by fastforce
  then show ?case by auto
next
  case (3 p)
  then show ?case by simp
next
  case (4 p x c es)
  from "4.prems"(3) consider "(q, f) \<in> set (files_of (p @ [x]) c)" | "(q, f) \<in> set (files_of_entries p es)"
    by auto
  then show ?case
  proof cases
    case 1
    then obtain r where "q = (p @ [x]) @ r" "lookup (Some c) r = Some f"
      using "4.IH"(1) "4.prems" by fastforce
    then show ?thesis by auto
  next
    case 2
    then obtain y r where y: "q = p @ y # r" "lookup (map_of es y) r = Some f"
      using "4.IH"(2) "4.prems" by fastforce
    have "map_of es y \<noteq> None" using y(2) by (cases "map_of es y") auto
    then have "y \<in> fst ` set es" by (simp add: map_of_eq_None_iff)
    then have "y \<noteq> x" using "4.prems"(1) by auto
    then show ?thesis using y by auto
  qed
qed

lemma regular_files_lookup:
  "wf_root rt \<Longrightarrow> (q, f) \<in> set (regular_files rt) \<Longrightarrow> lookup rt q = Some f"
  by (cases rt) (auto simp: regular_files_def wf_root_def dest: files_of_lookup(1))

lemma logItems_log:
  "log (logItems i n fs u) =
     log u @ map LogItem (take (10 - i) fs) @ (if length fs > 10 - i then [LogMore (n - 10)] else [])"
proof (induction i n fs u rule: logItems.induct)
  case (1 i n u)
  then show ?case by simp
next
  case (2 i n f fs u)
  show ?case
  proof (cases "i \<ge> 10")
    case True
    then show ?thesis by (simp add: addLog_def)
  next
    case False
    then have "10 - i = Suc (10 - Suc i)" by simp
    then show ?thesis using False 2 by (simp add: addLog_def)
  qed
qed

lemma log_doCheck:
  "log (doCheck md5 src tgt u) = log u @ LogSavedConfig # check_lines (fst (getFilesToUpdate md5 src tgt))"
proof -
  obtain fs e where g: "getFilesToUpdate md5 src tgt = (fs, e)"
    by (cases "getFilesToUpdate md5 src tgt")
  have "e = None" using getFilesToUpdate_no_err [of md5 src tgt] g by simp
  then show ?thesis using g
    by (simp add: doCheck_def Let_def check_lines_def logItems_log addLog_def setStatus_def
          setProgress_def saveConfig_def)
qed


lemma getFilesToUpdate_run_files:
  "getFilesToUpdate_run md5 src tgt =
     (\<lparr>toUpdate = map fst (filter (\<lambda>(p, f). diff_reason md5 src tgt p f \<noteq> None) (regular_files src)),
       hashed = concat (map (\<lambda>(p, f). hash_reads tgt p f) (regular_files src))\<rparr>, None)"
proof -
  let ?fn = "getFilesToUpdate_fn md5 src tgt"
  have dir: "\<And>s p i e. IsDir i \<Longrightarrow> ?fn s p (Some i) e = (s, None)"
    by (simp add: getFilesToUpdate_fn_def split: option.splits)
  have fil: "\<And>s p i. \<not> IsDir i \<Longrightarrow> snd (?fn s p (Some i) None) = None"
    by (metis getFilesToUpdate_fn_err prod.collapse)
  have nil: "\<And>s p e. ?fn s p None (Some e) = (s, None)"
    by (simp add: getFilesToUpdate_fn_def)
  have files: "\<forall>pf \<in> set (regular_files src). \<not> IsDir (info_of (snd pf))"
    by (cases src) (auto simp: regular_files_def dest: files_of_are_files(1))
  have "WalkDir ?fn src \<lparr>toUpdate = [], hashed = []\<rparr>
        = (foldl (visit ?fn) \<lparr>toUpdate = [], hashed = []\<rparr> (regular_files src), None)"
    using dir fil nil by (rule WalkDir_visits_files)
  then show ?thesis
    by (simp add: getFilesToUpdate_run_def foldl_visit_getFilesToUpdate_fn [OF files])
qed


section \<open>Claims about the change set\<close>

text \<open>
  C1, as the code has it. For the regular files under the source root, in walk
  order, \<^verbatim>\<open>getFilesToUpdate\<close> emits the relative path of a file exactly when
  \<^verbatim>\<open>os.Stat\<close> of the target fails (Missing), or the sizes differ (SizeMismatch), or
  the sizes are equal, both files can be read and their digests differ
  (ContentMismatch). A file of equal size whose source or target copy cannot be read
  gets no entry, and neither does one with equal digests. \<^verbatim>\<open>fileHash\<close> is called,
  on both copies, exactly for the files whose target was found with the same size:
  it is skipped when the target is missing or the sizes differ. The entries carry
  the path only.
\<close>

theorem getFilesToUpdate_exact:
  "getFilesToUpdate_run md5 src tgt =
     (\<lparr>toUpdate = map fst (filter (\<lambda>(p, f). diff_reason md5 src tgt p f \<noteq> None) (regular_files src)),
       hashed = concat (map (\<lambda>(p, f). hash_reads tgt p f) (regular_files src))\<rparr>, None)"
  by (rule getFilesToUpdate_run_files)

theorem getFilesToUpdate_exact_witness:
  "getFilesToUpdate_run (\<lambda>d. d) ex_src ex_tgt =
     (\<lparr>toUpdate = [[''sub'', ''b.txt'']],
       hashed = [InSource [''a.txt''], InTarget [''a.txt'']]\<rparr>, None)"
  using getFilesToUpdate_exact [of "\<lambda>d. d" ex_src ex_tgt]
  by (simp add: ex_src_def ex_tgt_def regular_files_def diff_reason_def hash_reads_def readFile_def)

text \<open>
  C1 as stated fails: the target copy of \<^verbatim>\<open>a.txt\<close> exists with the size of the
  source file and cannot be read, so it is unreadable and the two results of
  \<^verbatim>\<open>fileHash\<close> differ, and yet no entry is emitted.
\<close>

theorem getFilesToUpdate_unreadable_target_counterexample:
  "readFile ex_tgt_locked [''a.txt''] = Inl ErrPermission
   \<and> fileHash (\<lambda>d. d) ex_src_one [''a.txt''] \<noteq> fileHash (\<lambda>d. d) ex_tgt_locked [''a.txt'']
   \<and> fst (getFilesToUpdate (\<lambda>d. d) ex_src_one ex_tgt_locked) = []"
  by (simp add: ex_src_one_def ex_tgt_locked_def readFile_def fileHash_def getFilesToUpdate_def
        getFilesToUpdate_run_def WalkDir_def getFilesToUpdate_fn_def stat_def Let_def)

text \<open>
  C9, as the code has it. A file of a well-formed source tree whose target copy is
  found with the same size, and whose source or target content cannot be read, is
  skipped: the check returns no error and the file is not in the change set. Nothing
  is logged for it: \<^verbatim>\<open>doCheck\<close> adds to the log the line of \<^verbatim>\<open>saveConfig\<close> and the
  lines that describe the change set, and none of them is about the skipped file.
\<close>

theorem unreadable_file_skipped_without_log:
  assumes wf: "wf_root src"
      and pf: "(p, f) \<in> set (regular_files src)"
      and t: "lookup tgt p = Some t"
      and sz: "Size (info_of t) = Size (info_of f)"
      and rd: "readFile src p = Inl e \<or> readFile tgt p = Inl e"
  shows "snd (getFilesToUpdate md5 src tgt) = None
     \<and> p \<notin> set (fst (getFilesToUpdate md5 src tgt))
     \<and> log (doCheck md5 src tgt u)
         = log u @ LogSavedConfig # check_lines (fst (getFilesToUpdate md5 src tgt))
     \<and> LogItem p \<notin> set (check_lines (fst (getFilesToUpdate md5 src tgt)))"
proof -
  let ?P = "\<lambda>(p, f). diff_reason md5 src tgt p f \<noteq> None"
  have fs: "fst (getFilesToUpdate md5 src tgt) = map fst (filter ?P (regular_files src))"
    by (simp add: getFilesToUpdate_def getFilesToUpdate_run_files)
  have none: "diff_reason md5 src tgt p f = None"
    using t sz rd by (auto simp: diff_reason_def split: sum.splits)
  have notin: "p \<notin> set (fst (getFilesToUpdate md5 src tgt))"
  proof
    assume "p \<in> set (fst (getFilesToUpdate md5 src tgt))"
    then obtain f' where f': "(p, f') \<in> set (regular_files src)" "diff_reason md5 src tgt p f' \<noteq> None"
      unfolding fs by auto
    have "f' = f"
      using regular_files_lookup [OF wf f'(1)] regular_files_lookup [OF wf pf] by simp
    then show False using f'(2) none by simp
  qed
  have "LogItem p \<notin> set (check_lines (fst (getFilesToUpdate md5 src tgt)))"
    using notin by (auto simp: check_lines_def dest: in_set_takeD)
  then show ?thesis
    using notin getFilesToUpdate_no_err [of md5 src tgt] log_doCheck [of md5 src tgt u] by simp
qed

theorem unreadable_file_skipped_without_log_witness:
  "wf_root ex_src_one
   \<and> ([''a.txt''], File False True True ''1'') \<in> set (regular_files ex_src_one)
   \<and> lookup ex_tgt_locked [''a.txt''] = Some (File False False True ''2'')
   \<and> readFile ex_tgt_locked [''a.txt''] = Inl ErrPermission
   \<and> snd (getFilesToUpdate (\<lambda>d. d) ex_src_one ex_tgt_locked) = None
   \<and> [''a.txt''] \<notin> set (fst (getFilesToUpdate (\<lambda>d. d) ex_src_one ex_tgt_locked))
   \<and> log (doCheck (\<lambda>d. d) ex_src_one ex_tgt_locked ui0)
       = log ui0 @ LogSavedConfig # check_lines (fst (getFilesToUpdate (\<lambda>d. d) ex_src_one ex_tgt_locked))
   \<and> LogItem [''a.txt''] \<notin> set (check_lines (fst (getFilesToUpdate (\<lambda>d. d) ex_src_one ex_tgt_locked)))"
proof -
  have h1: "wf_root ex_src_one" by (simp add: wf_root_def ex_src_one_def)
  have h2: "([''a.txt''], File False True True ''1'') \<in> set (regular_files ex_src_one)"
    by (simp add: regular_files_def ex_src_one_def)
  have h3: "lookup ex_tgt_locked [''a.txt''] = Some (File False False True ''2'')"
    by (simp add: ex_tgt_locked_def)
  have h4: "Size (info_of (File False False True ''2'')) = Size (info_of (File False True True ''1''))"
    by simp
  have h5: "readFile ex_tgt_locked [''a.txt''] = Inl ErrPermission"
    by (simp add: readFile_def ex_tgt_locked_def)
  have h5': "readFile ex_src_one [''a.txt''] = Inl ErrPermission \<or> readFile ex_tgt_locked [''a.txt''] = Inl ErrPermission"
    using h5 by simp
  show ?thesis
    using unreadable_file_skipped_without_log [OF h1 h2 h3 h4 h5', of "\<lambda>d. d" ui0] h1 h2 h3 h5
    by simp
qed

text \<open>
  C9 as stated fails: the unreadable target copy is skipped, and the whole log of
  the check is the line of \<^verbatim>\<open>saveConfig\<close> and "no file to update"; the status
  is "up to date".
\<close>

theorem doCheck_unreadable_not_logged_counterexample:
  "readFile ex_tgt_locked [''a.txt''] = Inl ErrPermission
   \<and> log (doCheck (\<lambda>d. d) ex_src_one ex_tgt_locked ui0) = [LogSavedConfig, LogNoFiles]
   \<and> status (doCheck (\<lambda>d. d) ex_src_one ex_tgt_locked ui0) = StUpToDate"
  by (simp add: ex_src_one_def ex_tgt_locked_def readFile_def fileHash_def getFilesToUpdate_def
        getFilesToUpdate_run_def WalkDir_def getFilesToUpdate_fn_def stat_def Let_def
        doCheck_def ui0_def saveConfig_def addLog_def setStatus_def setProgress_def)

section \<open>The loops of Apply and Restore, entry by entry\<close>

lemma updateLoop_append:
  "updateLoop i n (xs @ ys) w = updateLoop (i + length xs) n ys (updateLoop i n xs w)"
  by (induction xs arbitrary: i w) (simp_all add: Let_def split: sum.splits)

lemma log_updateLoop_single:
  "log (gui (updateLoop i n [f] w)) = log (gui w) @ [entry_result w f]"
  by (simp add: entry_result_def Let_def addLog_def setStatus_def setProgress_def split: sum.splits)

lemma progress_updateLoop_single:
  "progress (gui (updateLoop i n [f] w)) =
     progress (gui w) @ (if entry_result w f = LogUpdated f then [of_nat (Suc i) / of_nat n] else [])"
  by (simp add: entry_result_def Let_def addLog_def setStatus_def setProgress_def split: sum.splits)

lemma dialogs_updateLoop: "dialogs (gui (updateLoop i n fs w)) = dialogs (gui w)"
  by (induction fs arbitrary: i w)
     (simp_all add: Let_def addLog_def setStatus_def setProgress_def split: sum.splits)

lemma log_updateLoop:
  "log (gui (updateLoop i n fs w)) =
     log (gui w) @ map (\<lambda>k. entry_result (updateLoop i n (take k fs) w) (fs ! k)) [0..<length fs]"
proof (induction fs rule: rev_induct)
  case Nil
  then show ?case by simp
next
  case (snoc x xs)
  let ?F = "\<lambda>ys k. entry_result (updateLoop i n (take k ys) w) (ys ! k)"
  have a: "updateLoop i n (xs @ [x]) w = updateLoop (i + length xs) n [x] (updateLoop i n xs w)"
    by (rule updateLoop_append)
  have b: "log (gui (updateLoop i n (xs @ [x]) w))
           = log (gui (updateLoop i n xs w)) @ [entry_result (updateLoop i n xs w) x]"
    unfolding a by (rule log_updateLoop_single)
  have m: "map (?F (xs @ [x])) [0..<length xs] = map (?F xs) [0..<length xs]"
    by (rule map_cong) (simp_all add: nth_append)
  have l: "?F (xs @ [x]) (length xs) = entry_result (updateLoop i n xs w) x"
    by simp
  have "map (?F (xs @ [x])) [0..<length (xs @ [x])] = map (?F xs) [0..<length xs] @ [entry_result (updateLoop i n xs w) x]"
    using m l by simp
  then show ?case using b snoc.IH by simp
qed

lemma progress_updateLoop:
  "progress (gui (updateLoop i n fs w)) =
     progress (gui w)
     @ map (\<lambda>k. of_nat (Suc (i + k)) / of_nat n)
         (filter (\<lambda>k. entry_result (updateLoop i n (take k fs) w) (fs ! k) = LogUpdated (fs ! k))
            [0..<length fs])"
proof (induction fs rule: rev_induct)
  case Nil
  then show ?case by simp
next
  case (snoc x xs)
  let ?P = "\<lambda>ys k. entry_result (updateLoop i n (take k ys) w) (ys ! k) = LogUpdated (ys ! k)"
  let ?g = "\<lambda>k. (of_nat (Suc (i + k)) / of_nat n :: rat)"
  have a: "updateLoop i n (xs @ [x]) w = updateLoop (i + length xs) n [x] (updateLoop i n xs w)"
    by (rule updateLoop_append)
  have b: "progress (gui (updateLoop i n (xs @ [x]) w))
           = progress (gui (updateLoop i n xs w))
             @ (if entry_result (updateLoop i n xs w) x = LogUpdated x then [?g (length xs)] else [])"
    unfolding a by (rule progress_updateLoop_single)
  have m: "filter (?P (xs @ [x])) [0..<length xs] = filter (?P xs) [0..<length xs]"
    by (rule filter_cong) (simp_all add: nth_append)
  have l: "?P (xs @ [x]) (length xs) = (entry_result (updateLoop i n xs w) x = LogUpdated x)"
    by simp
  have "filter (?P (xs @ [x])) [0..<length (xs @ [x])]
        = filter (?P xs) [0..<length xs]
          @ (if entry_result (updateLoop i n xs w) x = LogUpdated x then [length xs] else [])"
    using m l by simp
  then have "map ?g (filter (?P (xs @ [x])) [0..<length (xs @ [x])])
        = map ?g (filter (?P xs) [0..<length xs])
          @ (if entry_result (updateLoop i n xs w) x = LogUpdated x then [?g (length xs)] else [])"
    by simp
  then show ?case using b snoc.IH by simp
qed

lemma fractions_increasing:
  assumes "0 < n"
  shows "sorted_wrt (<) (map (\<lambda>k. (of_nat (Suc (i + k)) / of_nat n :: rat)) (filter P [0..<m]))"
proof -
  have "sorted_wrt (<) (filter P [0..<m])"
    by (rule sorted_wrt_filter) simp
  then have "sorted_wrt (\<lambda>a b. (of_nat (Suc (i + a)) / of_nat n :: rat) < of_nat (Suc (i + b)) / of_nat n) (filter P [0..<m])"
    by (rule sorted_wrt_mono_rel [rotated]) (use assms in \<open>simp add: divide_strict_right_mono\<close>)
  then show ?thesis by (simp add: sorted_wrt_map)
qed

lemma entry_result_cong:
  "source w = source w' \<Longrightarrow> target w = target w' \<Longrightarrow> entry_result w f = entry_result w' f"
  by (simp add: entry_result_def cong: sum.case_cong)

lemma updateLoop_frame:
  "source w = source w' \<Longrightarrow> target w = target w' \<Longrightarrow>
     source (updateLoop i n fs w) = source (updateLoop i n fs w')
     \<and> target (updateLoop i n fs w) = target (updateLoop i n fs w')"
proof (induction fs arbitrary: i w w')
  case Nil
  then show ?case by simp
next
  case (Cons f fs)
  show ?case
    using Cons.prems
    by (auto simp: Let_def split: sum.splits intro!: Cons.IH)
qed

lemma updateLoop_gui_frame:
  "entry_result (updateLoop i n fs (w\<lparr>gui := u\<rparr>)) f = entry_result (updateLoop i n fs w) f"
  "target (updateLoop i n fs (w\<lparr>gui := u\<rparr>)) = target (updateLoop i n fs w)"
  using updateLoop_frame [of "w\<lparr>gui := u\<rparr>" w i n fs]
  by (simp_all add: entry_result_def cong: sum.case_cong)

lemma backups_updateLoop: "backups (updateLoop i n fs w) = backups w"
  by (induction fs arbitrary: i w) (simp_all add: Let_def split: sum.splits)

lemma log_performFilesUpdate:
  "log (gui (performFilesUpdate el fs w)) =
     log (gui w) @ LogKilled
       # map (\<lambda>k. entry_result (updateLoop 0 (length fs) (take k fs) w) (fs ! k)) [0..<length fs]
       @ LogUpdateDone (length fs) el
       # (case stat (target (updateLoop 0 (length fs) fs w)) [''ipcas2.exe''] of
            Inl e \<Rightarrow> [] | Inr i \<Rightarrow> [LogLaunched])"
proof -
  let ?w2 = "(killIPCAS w)\<lparr>gui := setProgress 0 (gui (killIPCAS w))\<rparr>"
  have w2: "?w2 = w\<lparr>gui := setProgress 0 (addLog LogKilled (gui w))\<rparr>"
    by (simp add: killIPCAS_def)
  have l: "log (gui (updateLoop 0 (length fs) fs ?w2)) =
     log (gui w) @ LogKilled
       # map (\<lambda>k. entry_result (updateLoop 0 (length fs) (take k fs) w) (fs ! k)) [0..<length fs]"
    unfolding w2 log_updateLoop updateLoop_gui_frame
    by (simp add: addLog_def setProgress_def)
  have t: "target (updateLoop 0 (length fs) fs ?w2) = target (updateLoop 0 (length fs) fs w)"
    unfolding w2 by (rule updateLoop_gui_frame)
  show ?thesis
    using l t
    by (auto simp: performFilesUpdate_def Let_def launchIPCAS_def refreshBackups_def
          addLog_def setStatus_def setProgress_def showMsg_def
          split: sum.splits list.splits)
qed

lemma progress_performFilesUpdate:
  "progress (gui (performFilesUpdate el fs w)) =
     progress (gui w) @ 0
       # map (\<lambda>k. of_nat (Suc k) / of_nat (length fs))
           (filter (\<lambda>k. entry_result (updateLoop 0 (length fs) (take k fs) w) (fs ! k) = LogUpdated (fs ! k))
              [0..<length fs])
       @ [1]"
proof -
  let ?w2 = "(killIPCAS w)\<lparr>gui := setProgress 0 (gui (killIPCAS w))\<rparr>"
  have w2: "?w2 = w\<lparr>gui := setProgress 0 (addLog LogKilled (gui w))\<rparr>"
    by (simp add: killIPCAS_def)
  have l: "progress (gui (updateLoop 0 (length fs) fs ?w2)) =
     progress (gui w) @ 0
       # map (\<lambda>k. of_nat (Suc k) / of_nat (length fs))
           (filter (\<lambda>k. entry_result (updateLoop 0 (length fs) (take k fs) w) (fs ! k) = LogUpdated (fs ! k))
              [0..<length fs])"
    unfolding w2 progress_updateLoop updateLoop_gui_frame
    by (simp add: addLog_def setProgress_def)
  show ?thesis
    using l
    by (auto simp: performFilesUpdate_def Let_def launchIPCAS_def refreshBackups_def
          addLog_def setStatus_def setProgress_def showMsg_def
          split: sum.splits list.splits)
qed

lemma dialogs_performFilesUpdate:
  "dialogs (gui (performFilesUpdate el fs w)) = dialogs (gui w) @ [DlgUpdated (length fs)]"
  by (simp add: performFilesUpdate_def Let_def launchIPCAS_def refreshBackups_def killIPCAS_def
        dialogs_updateLoop addLog_def setStatus_def setProgress_def showMsg_def
        split: sum.splits list.splits)

lemma restoreLoop_append:
  "restoreLoop i n (xs @ ys) w = restoreLoop (i + length xs) n ys (restoreLoop i n xs w)"
proof (induction xs arbitrary: i w)
  case Nil
  then show ?case by simp
next
  case (Cons z zs)
  obtain name d where z: "z = (name, d)" by (cases z)
  show ?case unfolding z by (cases d) (simp_all add: Let_def Cons.IH)
qed

lemma progress_restoreLoop_single:
  "progress (gui (restoreLoop i n [z] w)) =
     progress (gui w)
     @ (if zentry_result z = LogRestored (fst z) then [of_nat (Suc i) / of_nat n] else [])"
proof -
  obtain name d where z: "z = (name, d)" by (cases z)
  show ?thesis unfolding z
    by (cases d) (simp_all add: zentry_result_def Let_def addLog_def setProgress_def)
qed

lemma progress_restoreLoop:
  "progress (gui (restoreLoop i n zs w)) =
     progress (gui w)
     @ map (\<lambda>k. of_nat (Suc (i + k)) / of_nat n)
         (filter (\<lambda>k. zentry_result (zs ! k) = LogRestored (fst (zs ! k))) [0..<length zs])"
proof (induction zs rule: rev_induct)
  case Nil
  then show ?case by simp
next
  case (snoc x xs)
  let ?P = "\<lambda>ys k. zentry_result (ys ! k) = LogRestored (fst (ys ! k))"
  let ?g = "\<lambda>k. (of_nat (Suc (i + k)) / of_nat n :: rat)"
  have a: "restoreLoop i n (xs @ [x]) w = restoreLoop (i + length xs) n [x] (restoreLoop i n xs w)"
    by (rule restoreLoop_append)
  have b: "progress (gui (restoreLoop i n (xs @ [x]) w))
           = progress (gui (restoreLoop i n xs w))
             @ (if zentry_result x = LogRestored (fst x) then [?g (length xs)] else [])"
    unfolding a by (rule progress_restoreLoop_single)
  have m: "filter (?P (xs @ [x])) [0..<length xs] = filter (?P xs) [0..<length xs]"
    by (rule filter_cong) (simp_all add: nth_append)
  have "filter (?P (xs @ [x])) [0..<length (xs @ [x])]
        = filter (?P xs) [0..<length xs]
          @ (if zentry_result x = LogRestored (fst x) then [length xs] else [])"
    using m by simp
  then have "map ?g (filter (?P (xs @ [x])) [0..<length (xs @ [x])])
        = map ?g (filter (?P xs) [0..<length xs])
          @ (if zentry_result x = LogRestored (fst x) then [?g (length xs)] else [])"
    by simp
  then show ?case using b snoc.IH by simp
qed

lemma progress_doRestore:
  assumes "backupSelected (gui w) \<noteq> []"
      and "openZip (backups w) (backupSelected (gui w)) = Some zs"
  shows "progress (gui (doRestore w)) =
     progress (gui w)
     @ map (\<lambda>k. of_nat (Suc k) / of_nat (length zs))
         (filter (\<lambda>k. zentry_result (zs ! k) = LogRestored (fst (zs ! k))) [0..<length zs])"
  using assms
  by (auto simp: doRestore_def Let_def killIPCAS_def progress_restoreLoop launchIPCAS_def
        addLog_def setStatus_def showMsg_def split: sum.splits)


section \<open>Claims about Apply and Restore\<close>

text \<open>
  C7, as the code has it. \<^verbatim>\<open>performFilesUpdate\<close> sets the bar to 0, then after every
  entry that was copied to \<open>(k+1)/n\<close>, and to 1 at the end; \<^verbatim>\<open>doRestore\<close> sets it
  to \<open>(k+1)/n\<close> after every entry that could be opened and read. An entry that
  fails sets nothing. The fractions set for the entries are strictly increasing.
  Fractions are exact here, not \<^verbatim>\<open>float64\<close>.
\<close>

theorem progress_only_after_successful_entries:
  "progress (gui (performFilesUpdate el fs w)) =
     progress (gui w) @ 0
       # map (\<lambda>k. of_nat (Suc k) / of_nat (length fs))
           (filter (\<lambda>k. entry_result (updateLoop 0 (length fs) (take k fs) w) (fs ! k)
                         = LogUpdated (fs ! k))
              [0..<length fs])
       @ [1]
   \<and> sorted_wrt (<)
       (map (\<lambda>k. (of_nat (Suc k) / of_nat (length fs) :: rat))
          (filter (\<lambda>k. entry_result (updateLoop 0 (length fs) (take k fs) w) (fs ! k)
                        = LogUpdated (fs ! k))
             [0..<length fs]))
   \<and> (backupSelected (gui v) \<noteq> [] \<and> openZip (backups v) (backupSelected (gui v)) = Some zs \<longrightarrow>
        progress (gui (doRestore v)) =
          progress (gui v)
          @ map (\<lambda>k. of_nat (Suc k) / of_nat (length zs))
              (filter (\<lambda>k. zentry_result (zs ! k) = LogRestored (fst (zs ! k))) [0..<length zs])
        \<and> sorted_wrt (<)
            (map (\<lambda>k. (of_nat (Suc k) / of_nat (length zs) :: rat))
               (filter (\<lambda>k. zentry_result (zs ! k) = LogRestored (fst (zs ! k))) [0..<length zs])))"
proof -
  have inc: "sorted_wrt (<) (map (\<lambda>k. (of_nat (Suc k) / of_nat (length xs) :: rat)) (filter P [0..<length xs]))"
    for xs :: "'a list" and P
  proof (cases xs)
    case Nil
    then show ?thesis by simp
  next
    case (Cons a list)
    then have "0 < length xs" by simp
    then show ?thesis using fractions_increasing [of "length xs" 0 P "length xs"] by simp
  qed
  have s1: "sorted_wrt (<)
       (map (\<lambda>k. (of_nat (Suc k) / of_nat (length fs) :: rat))
          (filter (\<lambda>k. entry_result (updateLoop 0 (length fs) (take k fs) w) (fs ! k)
                        = LogUpdated (fs ! k))
             [0..<length fs]))"
    by (rule inc)
  have s2: "sorted_wrt (<)
            (map (\<lambda>k. (of_nat (Suc k) / of_nat (length zs) :: rat))
               (filter (\<lambda>k. zentry_result (zs ! k) = LogRestored (fst (zs ! k))) [0..<length zs]))"
    by (rule inc)
  show ?thesis
    using progress_performFilesUpdate [of el fs w] progress_doRestore [of v zs] s1 s2
    by simp
qed

theorem progress_only_after_successful_entries_witness:
  "backupSelected (gui ex_restore_world) \<noteq> []
   \<and> openZip (backups ex_restore_world) (backupSelected (gui ex_restore_world)) = Some ex_zip
   \<and> progress (gui (doRestore ex_restore_world)) = [1 / 3, 1]
   \<and> progress (gui (performFilesUpdate 3 [[''a.txt''], [''b.txt'']] ex_world)) = [0, 1, 1]"
proof -
  have h: "backupSelected (gui ex_restore_world) \<noteq> []
     \<and> openZip (backups ex_restore_world) (backupSelected (gui ex_restore_world)) = Some ex_zip"
    by (simp add: ex_restore_world_def ui0_def openZip_def)
  have u: "[0..<2] = [0, Suc 0]" "[0..<3] = [0, Suc 0, 2]" by (simp_all add: upt_rec)
  have l: "length ex_zip = 3" by (simp add: ex_zip_def)
  have p: "progress (gui ex_restore_world) = []" by (simp add: ex_restore_world_def ui0_def)
  have q: "progress (gui ex_world) = []" by (simp add: ex_world_def ui0_def)
  have e0: "entry_result ex_world [''a.txt''] = LogReadErr [''a.txt'']"
    by (simp add: ex_world_def entry_result_def readFile_def)
  have e1: "entry_result (updateLoop 0 (Suc (Suc 0)) [[''a.txt'']] ex_world) [''b.txt'']
              = LogUpdated [''b.txt'']"
    by (simp add: ex_world_def entry_result_def readFile_def mkdirParent_def Let_def)
  have z: "zentry_result (ex_zip ! 0) = LogRestored (fst (ex_zip ! 0))"
          "zentry_result (ex_zip ! Suc 0) \<noteq> LogRestored (fst (ex_zip ! Suc 0))"
          "zentry_result (ex_zip ! 2) = LogRestored (fst (ex_zip ! 2))"
    by (simp_all add: ex_zip_def zentry_result_def)
  show ?thesis
    using progress_only_after_successful_entries
            [of 3 "[[''a.txt''], [''b.txt'']]" ex_world ex_restore_world ex_zip] h
    by (simp add: u l p z ex_world_def ui0_def entry_result_def readFile_def mkdirParent_def Let_def)
qed


text \<open>
  C7 as stated fails: with a change set of two entries whose first cannot be read,
  the bar is set to 0, 1, 1. The failed entry sets no 1/2, and the sequence is not
  strictly increasing.
\<close>

theorem apply_progress_counterexample:
  "progress (gui (performFilesUpdate 3 [[''a.txt''], [''b.txt'']] ex_world)) = [0, 1, 1]
   \<and> LogReadErr [''a.txt''] \<in> set (log (gui (performFilesUpdate 3 [[''a.txt''], [''b.txt'']] ex_world)))
   \<and> (1 / 2 :: rat) \<notin> set (progress (gui (performFilesUpdate 3 [[''a.txt''], [''b.txt'']] ex_world)))
   \<and> \<not> sorted_wrt (<) (progress (gui (performFilesUpdate 3 [[''a.txt''], [''b.txt'']] ex_world)))"
proof -
  have "progress (gui (performFilesUpdate 3 [[''a.txt''], [''b.txt'']] ex_world)) = [0, 1, 1]
   \<and> log (gui (performFilesUpdate 3 [[''a.txt''], [''b.txt'']] ex_world))
       = [LogKilled, LogReadErr [''a.txt''], LogUpdated [''b.txt''], LogUpdateDone 2 3]"
    by (simp add: performFilesUpdate_def ex_world_def ui0_def killIPCAS_def Let_def readFile_def
        mkdirParent_def addLog_def setStatus_def setProgress_def showMsg_def launchIPCAS_def
        refreshBackups_def listBackups_def stat_def map_of_ins)
  then show ?thesis by simp
qed


text \<open>
  C8, as the code has it. Every \<^verbatim>\<open>performFilesUpdate\<close> ends with the status
  "update complete", a message box that gives the number of entries of the change
  set, and, after the lines of the entries, a log line that gives that number and
  the elapsed time (followed only by the line of the relaunch, if the executable is
  there). No count of succeeded or failed entries is reported.
\<close>

theorem apply_terminal_result:
  "status (gui (performFilesUpdate el fs w)) = StUpdateDone
   \<and> dialogs (gui (performFilesUpdate el fs w)) = dialogs (gui w) @ [DlgUpdated (length fs)]
   \<and> drop (length (log (gui w)) + 1 + length fs) (log (gui (performFilesUpdate el fs w)))
       = LogUpdateDone (length fs) el
         # (case stat (target (updateLoop 0 (length fs) fs w)) [''ipcas2.exe''] of
              Inl e \<Rightarrow> [] | Inr i \<Rightarrow> [LogLaunched])"
  using log_performFilesUpdate [of el fs w] status_performFilesUpdate [of el fs w]
    dialogs_performFilesUpdate [of el fs w]
  by simp

theorem apply_terminal_result_witness:
  "status (gui (performFilesUpdate 3 [[''a.txt'']] ex_world)) = StUpdateDone
   \<and> dialogs (gui (performFilesUpdate 3 [[''a.txt'']] ex_world)) = [DlgUpdated 1]
   \<and> drop 2 (log (gui (performFilesUpdate 3 [[''a.txt'']] ex_world))) = [LogUpdateDone 1 3]"
  using apply_terminal_result [of 3 "[[''a.txt'']]" ex_world]
  by (simp add: ex_world_def ui0_def readFile_def mkdirParent_def stat_def Let_def numeral_2_eq_2)


text \<open>
  C8 as stated fails: the only entry cannot be read, and the terminal result is the
  status "update complete", the log line "1 file in 3 s" and the message box
  "updated 1 file"; nothing gives the count of failures.
\<close>

theorem apply_terminal_result_counterexample:
  "log (gui (performFilesUpdate 3 [[''a.txt'']] ex_world))
       = [LogKilled, LogReadErr [''a.txt''], LogUpdateDone 1 3]
     \<and> status (gui (performFilesUpdate 3 [[''a.txt'']] ex_world)) = StUpdateDone
     \<and> dialogs (gui (performFilesUpdate 3 [[''a.txt'']] ex_world)) = [DlgUpdated 1]"
  by (simp add: performFilesUpdate_def ex_world_def ui0_def killIPCAS_def Let_def readFile_def
        mkdirParent_def addLog_def setStatus_def setProgress_def showMsg_def launchIPCAS_def
        refreshBackups_def listBackups_def stat_def map_of_ins)

section \<open>Creating a backup and pruning the old ones\<close>

lemma removeOld_eq:
  "removeOld held ns (es, u)
     = (filter (\<lambda>e. fst e \<notin> set ns \<or> fst e = held) es, u\<lparr>log := log u @ map LogRemovedOld ns\<rparr>)"
proof (induction ns arbitrary: es u)
  case Nil
  then show ?case by simp
next
  case (Cons n ns)
  have a: "filter (\<lambda>e. fst e \<notin> set ns \<or> fst e = held) (del n es)
          = filter (\<lambda>e. fst e \<notin> set (n # ns) \<or> fst e = held) es" if "n \<noteq> held"
    using that by (induction es) (auto simp: del_def)
  have b: "filter (\<lambda>e. fst e \<notin> set ns \<or> fst e = held) es
          = filter (\<lambda>e. fst e \<notin> set (n # ns) \<or> fst e = held) es" if "n = held"
    using that by (induction es) auto
  show ?case
    using a b by (simp add: Cons.IH addLog_def osRemove_def)
qed

lemma isBackupName_backupName: "isBackupName (backupName now)"
  by (simp add: isBackupName_def backupName_def HasPrefix_def HasSuffix_def)

lemma sortReverse_unique:
  assumes "distinct xs" "distinct ys" "set xs = set ys"
  shows "sortReverse xs = sortReverse ys"
proof -
  have "sort xs = sort ys"
    by (rule sorted_distinct_set_unique) (use assms in simp_all)
  then show ?thesis by (simp add: sortReverse_def)
qed

lemma sortReverse_eqI:
  assumes "distinct ys" "distinct zs" "sorted (rev zs)" "set ys = set zs"
  shows "sortReverse ys = zs"
proof -
  have "sort ys = rev zs"
    by (rule sorted_distinct_set_unique) (use assms in simp_all)
  then show ?thesis by (simp add: sortReverse_def)
qed

lemma map_of_filter_fst:
  "map_of (filter (\<lambda>e. P (fst e)) es) k = (if P k then map_of es k else None)"
  by (induction es) auto

lemma createBackup_dir:
  fixes now :: string and w :: world and es :: "(string \<times> bfile) list"
  assumes d: "distinct (map fst es)"
    and bd: "backups w = BackupDir es \<or> (backups w = BackupMissing \<and> es = [])"
  defines "name \<equiv> backupName now"
  defines "bk \<equiv> sortReverse (List.insert name (listBackups (BackupDir es)))"
  shows "snd (createBackup now w) = None"
    and "listBackups (backups (fst (createBackup now w)))
           = take 3 bk @ (if name \<in> set (drop 3 bk) then [name] else [])"
    and "log (gui (fst (createBackup now w)))
           = log (gui w) @ LogCreatingBackup name # map LogRemovedOld (drop 3 bk) @ [LogBackupDone name]"
    and "target (fst (createBackup now w)) = target w"
    and "backups (fst (createBackup now w)) \<noteq> BackupBlocked \<and> wf_bdir (backups (fst (createBackup now w)))"
    and "openZip (backups (fst (createBackup now w))) name
           = Some (fst (WalkDir (createBackup_fn (target w)) (target w) []))"
proof -
  let ?z = "fst (WalkDir (createBackup_fn (target w)) (target w) [])"
  let ?es1 = "ins name (Zip ?z) es"
  let ?names1 = "filter isBackupName (map fst ?es1)"
  let ?old = "filter isBackupName (map fst es)"
  have d1: "distinct (map fst ?es1)" using d by (rule distinct_ins)
  have dn1: "distinct ?names1" using d1 by simp
  have sn1: "set ?names1 = insert name (set ?old)"
    using set_fst_ins [of name "Zip ?z" es] isBackupName_backupName [of now]
    by (auto simp: name_def)
  have dold: "distinct (listBackups (BackupDir es))"
    using d by (simp add: listBackups_def sortReverse_def)
  have sold: "set (listBackups (BackupDir es)) = set ?old"
    by (simp add: listBackups_def sortReverse_def)
  have bk: "bk = sortReverse ?names1"
    unfolding bk_def
    by (rule sortReverse_unique) (use dold dn1 sn1 sold in auto)
  have dbk: "distinct bk" using dn1 by (simp add: bk sortReverse_def)
  have sbk: "set bk = set ?names1" by (simp add: bk sortReverse_def)
  let ?es2 = "filter (\<lambda>e. fst e \<notin> set (drop 3 bk) \<or> fst e = name) ?es1"
  have cb: "createBackup now w =
      (w\<lparr>backups := BackupDir ?es2,
         gui := (gui w)\<lparr>log := log (gui w) @ LogCreatingBackup name # map LogRemovedOld (drop 3 bk)
                              @ [LogBackupDone name]\<rparr>\<rparr>, None)"
    unfolding bk using bd
    by (auto simp: createBackup_def Let_def removeOld_eq addLog_def name_def [symmetric])
  show "snd (createBackup now w) = None" by (simp add: cb)
  show "log (gui (fst (createBackup now w)))
           = log (gui w) @ LogCreatingBackup name # map LogRemovedOld (drop 3 bk) @ [LogBackupDone name]"
    by (simp add: cb)
  show "target (fst (createBackup now w)) = target w" by (simp add: cb)
  show "backups (fst (createBackup now w)) \<noteq> BackupBlocked \<and> wf_bdir (backups (fst (createBackup now w)))"
    using d1 by (simp add: cb wf_bdir_def distinct_map_filter)
  let ?kept = "take 3 bk @ (if name \<in> set (drop 3 bk) then [name] else [])"
  have f2: "filter isBackupName (map fst ?es2)
              = filter (\<lambda>n. n \<notin> set (drop 3 bk) \<or> n = name) ?names1"
    by (simp add: filter_map comp_def conj_commute)
  have td: "set (take 3 bk) \<inter> set (drop 3 bk) = {}"
    using dbk by (metis append_take_drop_id distinct_append)
  have tu: "set (take 3 bk) \<union> set (drop 3 bk) = set bk"
    by (metis append_take_drop_id set_append)
  have nbk: "name \<in> set bk" using sbk sn1 by simp
  have s2: "set (filter isBackupName (map fst ?es2)) = set ?kept"
    unfolding f2 using td tu sbk nbk by auto
  have d2: "distinct (filter isBackupName (map fst ?es2))"
    unfolding f2 using dn1 by (rule distinct_filter)
  have "sorted (rev bk)" by (simp add: bk sortReverse_def)
  then have "sorted (rev (drop 3 bk) @ rev (take 3 bk))"
    by (metis append_take_drop_id rev_append)
  then have so: "sorted (rev (take 3 bk))" "\<forall>x \<in> set (drop 3 bk). \<forall>y \<in> set (take 3 bk). x \<le> y"
    by (auto simp: sorted_append)
  have dk: "distinct ?kept" using dbk td by auto
  have sk: "sorted (rev ?kept)" using so by (auto simp: sorted_append)
  have "sortReverse (filter isBackupName (map fst ?es2)) = ?kept"
    using d2 dk sk s2 by (rule sortReverse_eqI)
  then show "listBackups (backups (fst (createBackup now w))) = ?kept"
    by (simp add: cb listBackups_def)
  have "map_of ?es1 name = Some (Zip ?z)" by (simp add: map_of_ins)
  then have "map_of ?es2 name = Some (Zip ?z)"
    using map_of_filter_fst [where P = "\<lambda>n. n \<notin> set (drop 3 bk) \<or> n = name" and es = ?es1 and k = name]
    by simp
  then show "openZip (backups (fst (createBackup now w))) name = Some ?z"
    by (simp add: cb openZip_def)
qed

lemma sortReverse_newest:
  assumes "\<forall>b \<in> set xs. b < x" and "distinct xs"
  shows "sortReverse (x # sortReverse xs) = x # sortReverse xs"
proof -
  have "sort (x # rev (sort xs)) = sort xs @ [x]"
  proof (rule sorted_distinct_set_unique)
    show "sorted (sort xs @ [x])" using assms by (auto simp: sorted_append less_imp_le)
    show "distinct (sort xs @ [x])" using assms by auto
    have "distinct (x # rev (sort xs))" using assms by auto
    then show "distinct (sort (x # rev (sort xs)))" by (simp only: distinct_sort)
    show "sorted (sort (x # rev (sort xs)))" by (rule sorted_sort)
    show "set (sort (x # rev (sort xs))) = set (sort xs @ [x])"
      by (simp only: set_sort set_append) auto
  qed
  then show ?thesis by (simp add: sortReverse_def)
qed

lemma take_append_take: "take n (xs @ take n ys) = take n (xs @ ys)"
  by (simp add: min_def)

lemma listBackups_cases:
  "backups w \<noteq> BackupBlocked \<Longrightarrow> wf_bdir (backups w) \<Longrightarrow>
     \<exists>es. distinct (map fst es) \<and> (backups w = BackupDir es \<or> (backups w = BackupMissing \<and> es = []))
          \<and> listBackups (backups w) = listBackups (BackupDir es)"
  by (cases "backups w") (auto simp: wf_bdir_def listBackups_def sortReverse_def)

lemma createBackup_retention:
  fixes now :: string and w :: world
  assumes nb: "backups w \<noteq> BackupBlocked" and wf: "wf_bdir (backups w)"
  defines "bk \<equiv> sortReverse (List.insert (backupName now) (listBackups (backups w)))"
  shows "snd (createBackup now w) = None"
    and "listBackups (backups (fst (createBackup now w)))
           = take 3 bk @ (if backupName now \<in> set (drop 3 bk) then [backupName now] else [])"
    and "log (gui (fst (createBackup now w)))
           = log (gui w) @ LogCreatingBackup (backupName now) # map LogRemovedOld (drop 3 bk)
             @ [LogBackupDone (backupName now)]"
    and "backups (fst (createBackup now w)) \<noteq> BackupBlocked \<and> wf_bdir (backups (fst (createBackup now w)))"
    and "(\<forall>b \<in> set (listBackups (backups w)). b < backupName now) \<Longrightarrow>
           bk = backupName now # listBackups (backups w)"
proof -
  obtain es where es: "distinct (map fst es)"
      "backups w = BackupDir es \<or> (backups w = BackupMissing \<and> es = [])"
      "listBackups (backups w) = listBackups (BackupDir es)"
    using listBackups_cases [OF nb wf] by blast
  have bk: "bk = sortReverse (List.insert (backupName now) (listBackups (BackupDir es)))"
    by (simp add: bk_def es(3))
  show "snd (createBackup now w) = None" by (rule createBackup_dir(1) [OF es(1,2)])
  show "listBackups (backups (fst (createBackup now w)))
           = take 3 bk @ (if backupName now \<in> set (drop 3 bk) then [backupName now] else [])"
    unfolding bk by (rule createBackup_dir(2) [OF es(1,2)])
  show "log (gui (fst (createBackup now w)))
           = log (gui w) @ LogCreatingBackup (backupName now) # map LogRemovedOld (drop 3 bk)
             @ [LogBackupDone (backupName now)]"
    unfolding bk by (rule createBackup_dir(3) [OF es(1,2)])
  show "backups (fst (createBackup now w)) \<noteq> BackupBlocked \<and> wf_bdir (backups (fst (createBackup now w)))"
    by (rule createBackup_dir(5) [OF es(1,2)])
  show "bk = backupName now # listBackups (backups w)"
    if lt: "\<forall>b \<in> set (listBackups (backups w)). b < backupName now"
  proof -
    have "backupName now \<notin> set (listBackups (backups w))" using lt by auto
    then have i: "List.insert (backupName now) (listBackups (backups w))
                 = backupName now # listBackups (backups w)"
      by (simp add: List.insert_def)
    have "\<exists>xs. distinct xs \<and> listBackups (backups w) = sortReverse xs"
    proof (cases "backups w")
      case (BackupDir es)
      then show ?thesis using wf
        by (intro exI [of _ "filter isBackupName (map fst es)"]) (simp add: listBackups_def wf_bdir_def)
    next
      case BackupMissing
      then show ?thesis
        by (intro exI [of _ "[]"]) (simp add: listBackups_def sortReverse_def)
    next
      case BackupBlocked
      then show ?thesis using nb by simp
    qed
    then obtain xs where xs: "distinct xs" "listBackups (backups w) = sortReverse xs" by blast
    have "\<forall>b \<in> set xs. b < backupName now" using lt xs by (simp add: sortReverse_def)
    then have "sortReverse (backupName now # sortReverse xs) = backupName now # sortReverse xs"
      using xs(1) by (rule sortReverse_newest)
    then show ?thesis
      unfolding bk_def i unfolding xs(2) .
  qed
qed

text \<open>When the new name is greater than every backup name already there, the new
  archive is among the three that are kept, so every removal is of a closed archive
  and at most three remain: the new one and the two newest old ones.\<close>

lemma createBackup_newest:
  assumes nb: "backups w \<noteq> BackupBlocked" and wf: "wf_bdir (backups w)"
    and lt: "\<forall>b \<in> set (listBackups (backups w)). b < backupName now"
  shows "listBackups (backups (fst (createBackup now w)))
           = take 3 (backupName now # listBackups (backups w))"
proof -
  have "backupName now \<notin> set (listBackups (backups w))" using lt by auto
  then have "backupName now \<notin> set (drop 2 (listBackups (backups w)))"
    by (meson in_set_dropD)
  then show ?thesis
    using createBackup_retention(2) [OF nb wf, of now] createBackup_retention(5) [OF nb wf lt]
    by (simp add: numeral_3_eq_3 numeral_2_eq_2)
qed

lemma createBackups_sequence:
  assumes "backups w \<noteq> BackupBlocked" and "wf_bdir (backups w)"
    and "sorted_wrt (<) (map backupName (t # ts))"
    and "\<forall>b \<in> set (listBackups (backups w)). \<forall>t' \<in> set (t # ts). b < backupName t'"
  shows "listBackups (backups (createBackups (t # ts) w))
           = take 3 (rev (map backupName (t # ts)) @ listBackups (backups w))"
  using assms
proof (induction ts arbitrary: t w)
  case Nil
  have lt: "\<forall>b \<in> set (listBackups (backups w)). b < backupName t" using Nil.prems(4) by simp
  show ?case
    using createBackup_newest [OF Nil.prems(1,2) lt] by simp
next
  case (Cons t' ts)
  let ?w1 = "fst (createBackup t w)"
  let ?old = "listBackups (backups w)"
  have lt: "\<forall>b \<in> set ?old. b < backupName t" using Cons.prems(4) by simp
  have l1: "listBackups (backups ?w1) = take 3 (backupName t # ?old)"
    by (rule createBackup_newest [OF Cons.prems(1,2) lt])
  have wf1: "backups ?w1 \<noteq> BackupBlocked" "wf_bdir (backups ?w1)"
    using createBackup_retention(4) [OF Cons.prems(1,2), of t] by simp_all
  have s1: "sorted_wrt (<) (map backupName (t' # ts))" using Cons.prems(3) by simp
  have b1: "\<forall>b \<in> set (listBackups (backups ?w1)). \<forall>u \<in> set (t' # ts). b < backupName u"
  proof (intro ballI)
    fix b u assume b: "b \<in> set (listBackups (backups ?w1))" and u: "u \<in> set (t' # ts)"
    from b have "b \<in> set (backupName t # ?old)" unfolding l1 by (rule in_set_takeD)
    then show "b < backupName u"
      using Cons.prems(3,4) u by auto
  qed
  have "listBackups (backups (createBackups (t' # ts) ?w1))
           = take 3 (rev (map backupName (t' # ts)) @ listBackups (backups ?w1))"
    by (rule Cons.IH [OF wf1 s1 b1])
  also have "\<dots> = take 3 (rev (map backupName (t' # ts)) @ backupName t # ?old)"
    unfolding l1 by (rule take_append_take)
  finally show ?case by simp
qed

text \<open>The scenario of the specification: with the four backups B1 to B4 in place,
  the next backup leaves the new archive, B4 and B3.\<close>

lemma createBackup_four_in_place:
  "listBackups (backups (fst (createBackup ''20240101_000005'' ex_backup_world)))
     = [''BK_20240101_000005.zip'', ''BK_20240101_000004.zip'', ''BK_20240101_000003.zip'']
   \<and> log (gui (fst (createBackup ''20240101_000005'' ex_backup_world)))
       = [LogCreatingBackup ''BK_20240101_000005.zip'',
          LogRemovedOld ''BK_20240101_000002.zip'',
          LogRemovedOld ''BK_20240101_000001.zip'',
          LogBackupDone ''BK_20240101_000005.zip'']"
  by (simp add: createBackup_def ex_backup_world_def Let_def backupName_def ins_def ui0_def ex_tgt_def
     isBackupName_def HasPrefix_def HasSuffix_def sortReverse_def WalkDir_def createBackup_fn_def
     readFile_def del_def addLog_def listBackups_def osRemove_def)

text \<open>Five backups in sequence into a missing backup directory leave the last
  three.\<close>

lemma createBackups_five_in_sequence:
  "listBackups (backups (createBackups
      [''20240101_000001'', ''20240101_000002'', ''20240101_000003'', ''20240101_000004'',
       ''20240101_000005'']
      \<lparr>source = None, target = ex_tgt, backups = BackupMissing, gui = ui0\<rparr>))
   = [''BK_20240101_000005.zip'', ''BK_20240101_000004.zip'', ''BK_20240101_000003.zip'']"
  by (simp add: createBackup_def Let_def backupName_def ins_def ui0_def ex_tgt_def
     isBackupName_def HasPrefix_def HasSuffix_def sortReverse_def WalkDir_def createBackup_fn_def
     readFile_def del_def addLog_def listBackups_def osRemove_def)

section \<open>The claim about the retention of backups\<close>

text \<open>
  C3 fails on the code. The code means to keep at most three archives (its comment
  reads "Clean old backups (keep max 3)"), and \<open>createBackup_retention\<close> shows that it
  lists the old names and the new one in descending order and calls \<^verbatim>\<open>os.Remove\<close>
  on every name after the third. But the new archive is still open when the loop
  runs, and the error of \<^verbatim>\<open>os.Remove\<close> is dropped. When three archives in the
  directory have greater names than the new one, the new archive is the surplus
  one, its removal fails, and four archives remain, while the call returns no error
  and the log says that the new archive was removed.
\<close>

theorem createBackup_leaves_four_archives:
  "snd (createBackup ''20240101_000005'' ex_later_world) = None
   \<and> listBackups (backups ex_later_world)
       = [''BK_20250101_000003.zip'', ''BK_20250101_000002.zip'', ''BK_20250101_000001.zip'']
   \<and> listBackups (backups (fst (createBackup ''20240101_000005'' ex_later_world)))
       = [''BK_20250101_000003.zip'', ''BK_20250101_000002.zip'', ''BK_20250101_000001.zip'',
          ''BK_20240101_000005.zip'']
   \<and> length (listBackups (backups (fst (createBackup ''20240101_000005'' ex_later_world)))) = 4
   \<and> log (gui (fst (createBackup ''20240101_000005'' ex_later_world)))
       = [LogCreatingBackup ''BK_20240101_000005.zip'',
          LogRemovedOld ''BK_20240101_000005.zip'',
          LogBackupDone ''BK_20240101_000005.zip'']"
  by (simp add: createBackup_def ex_later_world_def Let_def backupName_def ins_def ui0_def ex_tgt_def
     isBackupName_def HasPrefix_def HasSuffix_def sortReverse_def WalkDir_def createBackup_fn_def
     readFile_def del_def addLog_def listBackups_def osRemove_def)

section \<open>The nodes a scan visits before it is told to stop\<close>

lemma visits_before_Nil [simp]: "visits_before stop j [] = []"
  by (simp add: visits_before_def split: option.splits)

lemma visits_before_open:
  "\<not> stopped stop j \<Longrightarrow> visits_before stop j (x # xs) = x # visits_before stop (Suc j) xs"
  by (auto simp: visits_before_def stopped_def take_Cons' split: option.splits)

lemma visits_before_closed: "stopped stop j \<Longrightarrow> visits_before stop j vs = []"
  by (auto simp: visits_before_def stopped_def split: option.splits)

lemma visits_before_append:
  "visits_before stop j (vs @ ws)
     = visits_before stop j vs @ visits_before stop (j + length vs) ws"
  by (simp add: visits_before_def split: option.splits)

lemma visits_before_cut:
  "\<exists>k. stop = Some k \<and> k < j + length vs \<Longrightarrow>
     visits_before stop j (vs @ ws) = visits_before stop j vs"
  by (auto simp: visits_before_def)

lemma walk_visits:
  fixes fn :: "scan_state walkfn" and M :: "path \<times> node \<Rightarrow> FileInfo list"
  assumes F: "\<And>s p h r w c. \<not> stopped stop (polls s) \<Longrightarrow>
                \<exists>s'. fn s p (Some (info_of (File h r w c))) None = (s', None)
                     \<and> found s' = found s @ M (p, File h r w c) \<and> polls s' = Suc (polls s)"
      and D: "\<And>s p l es e. \<not> stopped stop (polls s) \<Longrightarrow>
                \<exists>s'. fn s p (Some (info_of (Dir l es))) e = (s', None)
                     \<and> found s' = found s \<and> polls s' = Suc (polls s)"
      and MD: "\<And>p l es. M (p, Dir l es) = []"
      and S: "\<And>s p d e. stopped stop (polls s) \<Longrightarrow>
                \<exists>s'. fn s p d e = (s', Some SkipAll) \<and> found s' = found s
                     \<and> stopped stop (polls s')"
  shows "\<exists>s' e. walk fn p n s = (s', e)
            \<and> found s' = found s @ concat (map M (visits_before stop (polls s) (nodes_of p n)))
            \<and> ((e = None \<and> polls s' = polls s + length (nodes_of p n))
                \<or> (e = Some SkipAll \<and> stopped stop (polls s')
                    \<and> (\<exists>k. stop = Some k \<and> k < polls s + length (nodes_of p n))))"
    and "\<exists>s' e. walkNames fn p es s = (s', e)
            \<and> found s' = found s @ concat (map M (visits_before stop (polls s) (nodes_of_entries p es)))
            \<and> ((e = None \<and> polls s' = polls s + length (nodes_of_entries p es))
                \<or> (e = Some SkipAll \<and> stopped stop (polls s')
                    \<and> (\<exists>k. stop = Some k \<and> k < polls s + length (nodes_of_entries p es))))"
  using F D MD S
proof (induction fn p n s and fn p es s rule: walk_walkNames.induct)
  case (1 fn p h r w c s)
  show ?case
  proof (cases "stopped stop (polls s)")
    case False
    then obtain s' where "fn s p (Some (info_of (File h r w c))) None = (s', None)"
        "found s' = found s @ M (p, File h r w c)" "polls s' = Suc (polls s)"
      using "1.prems"(1) by blast
    then show ?thesis using False by (simp add: visits_before_open)
  next
    case True
    then obtain s' where "fn s p (Some (info_of (File h r w c))) None = (s', Some SkipAll)"
        "found s' = found s" "stopped stop (polls s')"
      using "1.prems"(4) by blast
    moreover have "\<exists>k. stop = Some k \<and> k < polls s + 1"
      using True by (auto simp: stopped_def split: option.splits)
    ultimately show ?thesis using True by (simp add: visits_before_closed)
  qed
next
  case (2 fn p l es s)
  let ?i = "info_of (Dir l es)"
  let ?e = "if l then None else Some ErrPermission"
  let ?vs = "nodes_of p (Dir l es)"
  show ?case
  proof (cases "stopped stop (polls s)")
    case True
    then obtain s' where "fn s p (Some ?i) ?e = (s', Some SkipAll)"
        "found s' = found s" "stopped stop (polls s')"
      using "2.prems"(4) by blast
    moreover have "\<exists>k. stop = Some k \<and> k < polls s + length ?vs"
      using True by (auto simp: stopped_def split: option.splits)
    ultimately show ?thesis using True by (simp add: visits_before_closed Let_def)
  next
    case False
    then obtain s1 where s1: "fn s p (Some ?i) ?e = (s1, None)"
        "found s1 = found s" "polls s1 = Suc (polls s)"
      using "2.prems"(2) by blast
    have vb: "visits_before stop (polls s) ?vs
                = (p, Dir l es) # visits_before stop (polls s1) (if l then nodes_of_entries p es else [])"
      using False s1(3) by (simp add: visits_before_open)
    show ?thesis
    proof (cases l)
      case False
      then have "walk fn p (Dir l es) s = (s1, None)" using s1(1) by (simp add: Let_def)
      then show ?thesis using s1 vb False "2.prems"(3) by simp
    next
      case True
      have w: "walk fn p (Dir l es) s = walkNames fn p es s1"
        using s1(1) True by (simp add: Let_def)
      obtain s' e where ih: "walkNames fn p es s1 = (s', e)"
          "found s' = found s1 @ concat (map M (visits_before stop (polls s1) (nodes_of_entries p es)))"
          "(e = None \<and> polls s' = polls s1 + length (nodes_of_entries p es))
             \<or> (e = Some SkipAll \<and> stopped stop (polls s')
                 \<and> (\<exists>k. stop = Some k \<and> k < polls s1 + length (nodes_of_entries p es)))"
        using "2.IH" [of ?e s1 None] s1(1) True "2.prems" by auto
      have f: "found s' = found s @ concat (map M (visits_before stop (polls s) ?vs))"
        using ih(2) s1(2) vb True "2.prems"(3) by simp
      show ?thesis
        using w ih(1) f ih(3) s1(3) True by auto
    qed
  qed
next
  case (3 fn p s)
  then show ?case by simp
next
  case (4 fn p x c es s)
  let ?v1 = "nodes_of (p @ [x]) c"
  let ?v2 = "nodes_of_entries p es"
  obtain s1 e1 where c: "walk fn (p @ [x]) c s = (s1, e1)"
      "found s1 = found s @ concat (map M (visits_before stop (polls s) ?v1))"
      "(e1 = None \<and> polls s1 = polls s + length ?v1)
         \<or> (e1 = Some SkipAll \<and> stopped stop (polls s1)
             \<and> (\<exists>k. stop = Some k \<and> k < polls s + length ?v1))"
    using "4.IH"(1) "4.prems" by blast
  from c(3) show ?case
  proof
    assume a: "e1 = None \<and> polls s1 = polls s + length ?v1"
    obtain s' e where r: "walkNames fn p es s1 = (s', e)"
        "found s' = found s1 @ concat (map M (visits_before stop (polls s1) ?v2))"
        "(e = None \<and> polls s' = polls s1 + length ?v2)
           \<or> (e = Some SkipAll \<and> stopped stop (polls s')
               \<and> (\<exists>k. stop = Some k \<and> k < polls s1 + length ?v2))"
    proof -
      have c1: "walk fn (p @ [x]) c s = (s1, None)" using c(1) a by simp
      show ?thesis using "4.IH"(2) [OF c1 [symmetric] refl] "4.prems" that by blast
    qed
    have w: "walkNames fn p ((x, c) # es) s = (s', e)" using c(1) a r(1) by simp
    have f: "found s' = found s @ concat (map M (visits_before stop (polls s) (?v1 @ ?v2)))"
      using r(2) c(2) a by (simp add: visits_before_append)
    show ?thesis using w f r(3) a by (auto simp: add.assoc)
  next
    assume a: "e1 = Some SkipAll \<and> stopped stop (polls s1)
             \<and> (\<exists>k. stop = Some k \<and> k < polls s + length ?v1)"
    have w: "walkNames fn p ((x, c) # es) s = (s1, Some SkipAll)" using c(1) a by simp
    have "visits_before stop (polls s) (?v1 @ ?v2) = visits_before stop (polls s) ?v1"
      using a by (intro visits_before_cut) blast
    then have f: "found s1 = found s @ concat (map M (visits_before stop (polls s) (?v1 @ ?v2)))"
      using c(2) by simp
    show ?thesis using w f a by auto
  qed
qed

lemma scanFiles_fn_file:
  "\<not> stopped stop (polls s) \<Longrightarrow>
     \<exists>s'. scanFiles_fn stop local s p (Some (info_of (File h r w c))) None = (s', None)
          \<and> found s' = found s @ scan_match local (p, File h r w c) \<and> polls s' = Suc (polls s)"
  by (simp add: scanFiles_fn_def scan_match_def Let_def)

lemma scanFiles_fn_dir:
  "\<not> stopped stop (polls s) \<Longrightarrow>
     \<exists>s'. scanFiles_fn stop local s p (Some (info_of (Dir l es))) e = (s', None)
          \<and> found s' = found s \<and> polls s' = Suc (polls s)"
  by (cases e) (simp_all add: scanFiles_fn_def Let_def)

lemma scan_match_dir: "scan_match local (p, Dir l es) = []"
  by (simp add: scan_match_def)

lemma scanFiles_fn_closed:
  "stopped stop (polls s) \<Longrightarrow>
     \<exists>s'. scanFiles_fn stop local s p d e = (s', Some SkipAll) \<and> found s' = found s
          \<and> stopped stop (polls s')"
  by (auto simp: scanFiles_fn_def stopped_def Let_def split: option.splits)

lemma scanRoot_visits:
  "found (scanRoot stop local p s)
     = found s @ concat (map (scan_match local) (visits_before stop (polls s) (root_visits local p)))
   \<and> ((polls (scanRoot stop local p s) = polls s + length (root_visits local p))
      \<or> (stopped stop (polls (scanRoot stop local p s))
          \<and> (\<exists>k. stop = Some k \<and> k < polls s + length (root_visits local p))))"
proof (cases "lookup local p")
  case None
  then show ?thesis by (simp add: scanRoot_def stat_def root_visits_def)
next
  case (Some n)
  obtain s' e where w: "walk (scanFiles_fn stop local) p n s = (s', e)"
      "found s' = found s @ concat (map (scan_match local) (visits_before stop (polls s) (nodes_of p n)))"
      "(e = None \<and> polls s' = polls s + length (nodes_of p n))
         \<or> (e = Some SkipAll \<and> stopped stop (polls s')
             \<and> (\<exists>k. stop = Some k \<and> k < polls s + length (nodes_of p n)))"
    using walk_visits(1) [of stop "scanFiles_fn stop local" "scan_match local" p n s,
            OF scanFiles_fn_file scanFiles_fn_dir scan_match_dir scanFiles_fn_closed]
    by blast
  have "scanRoot stop local p s = s'"
    using Some w(1) by (simp add: scanRoot_def stat_def Walk_def)
  then show ?thesis using w(2,3) Some by (auto simp: root_visits_def)
qed

lemma scanFiles_visits:
  "scanFiles stop local
     = concat (map (scan_match local) (visits_before stop 0 (scan_visits local)))"
proof -
  let ?s0 = "\<lparr>found = [], polls = 0\<rparr>"
  let ?p1 = "[''VirtualStore'', ''Windows'']"
  let ?p2 = "[''VirtualStore'']"
  let ?s1 = "scanRoot stop local ?p1 ?s0"
  let ?v1 = "root_visits local ?p1"
  let ?v2 = "root_visits local ?p2"
  have a: "found ?s1 = concat (map (scan_match local) (visits_before stop 0 ?v1))"
      "polls ?s1 = length ?v1
         \<or> (stopped stop (polls ?s1) \<and> (\<exists>k. stop = Some k \<and> k < 0 + length ?v1))"
    using scanRoot_visits [of stop local ?p1 ?s0] by simp_all
  have b: "found (scanRoot stop local ?p2 ?s1)
             = found ?s1 @ concat (map (scan_match local) (visits_before stop (polls ?s1) ?v2))"
    using scanRoot_visits [of stop local ?p2 ?s1] by simp
  from a(2) have "found (scanRoot stop local ?p2 ?s1)
      = concat (map (scan_match local) (visits_before stop 0 (?v1 @ ?v2)))"
  proof
    assume "polls ?s1 = length ?v1"
    then show ?thesis using a(1) b by (simp add: visits_before_append)
  next
    assume c: "stopped stop (polls ?s1) \<and> (\<exists>k. stop = Some k \<and> k < 0 + length ?v1)"
    then have "visits_before stop 0 (?v1 @ ?v2) = visits_before stop 0 ?v1"
      by (intro visits_before_cut) blast
    then show ?thesis using a(1) b c by (simp add: visits_before_closed)
  qed
  then show ?thesis by (simp add: scanFiles_def scanFiles_run_def scan_visits_def)
qed

lemma fileList_rows_panic:
  "is \<noteq> [] \<Longrightarrow> \<forall>i \<in> set is. i < length fs \<Longrightarrow> fileList_rows fs is = Some InterfaceConversion"
  by (cases "is") (simp_all add: fileList_update_def fileList_create_def NewBorder_def)

lemma fileList_Refresh_panic:
  "fileList_Refresh fs = (if fs = [] then None else Some InterfaceConversion)"
proof (cases "fs = []")
  case True
  then show ?thesis by (simp add: fileList_Refresh_def)
next
  case False
  then have "[0 ..< length fs] \<noteq> []" by simp
  then show ?thesis using False fileList_rows_panic [of "[0 ..< length fs]" fs]
    by (simp add: fileList_Refresh_def)
qed

section \<open>The claim about cancellation\<close>

text \<open>
  C6, as the code has it. The only walk that takes a stop signal is \<^verbatim>\<open>scanFiles\<close>;
  \<^verbatim>\<open>getFilesToUpdate\<close> takes none. \<^verbatim>\<open>scanFiles\<close> returns exactly the entries of the
  nodes it has visited before it sees the stop channel closed: when the first \<open>k\<close>
  polls find the channel open, these are the matches among the first \<open>k\<close> nodes of
  the two roots in walk order, and all matches when nobody stops the scan. So a
  stopped scan returns a prefix of the result of the scan that is not stopped, empty
  when the very first poll already finds the channel closed. The goroutine of the
  scan button stores whatever list \<^verbatim>\<open>scanFiles\<close> returns in \<^verbatim>\<open>files\<close> and shows its
  length; nothing is discarded. Its last statement \<^verbatim>\<open>fileList.Refresh()\<close> panics
  when that list is not empty, stopped or not: the callback of a row asserts that the
  first object of the row is the check box, and \<^verbatim>\<open>NewBorder\<close> has put the label
  first.
\<close>

theorem scanFiles_stop_returns_collected_entries:
  "scanFiles stop local
     = concat (map (scan_match local) (visits_before stop 0 (scan_visits local)))
   \<and> scanFiles (Some k) local = concat (map (scan_match local) (take k (scan_visits local)))
   \<and> scanFiles None local = concat (map (scan_match local) (scan_visits local))
   \<and> prefix (scanFiles (Some k) local) (scanFiles None local)
   \<and> scanFiles (Some 0) local = []
   \<and> files (tabScan_scan stop local) = map (\<lambda>f. (f, False)) (scanFiles stop local)
   \<and> countLbl (tabScan_scan stop local) = length (scanFiles stop local)
   \<and> panicked (tabScan_scan stop local)
       = (if scanFiles stop local = [] then None else Some InterfaceConversion)"
proof -
  let ?vs = "scan_visits local"
  have k: "scanFiles (Some k) local = concat (map (scan_match local) (take k ?vs))"
    using scanFiles_visits [of "Some k" local] by (simp add: visits_before_def)
  have n: "scanFiles None local = concat (map (scan_match local) ?vs)"
    using scanFiles_visits [of None local] by (simp add: visits_before_def)
  have "concat (map (scan_match local) ?vs)
          = concat (map (scan_match local) (take k ?vs)) @ concat (map (scan_match local) (drop k ?vs))"
    by (metis append_take_drop_id concat_append map_append)
  then have p: "prefix (scanFiles (Some k) local) (scanFiles None local)"
    unfolding k n by (simp add: prefix_def)
  have z: "scanFiles (Some 0) local = []"
    using scanFiles_visits [of "Some 0" local] by (simp add: visits_before_def)
  have t: "files (tabScan_scan stop local) = map (\<lambda>f. (f, False)) (scanFiles stop local)"
    "countLbl (tabScan_scan stop local) = length (scanFiles stop local)"
    "panicked (tabScan_scan stop local)
       = (if scanFiles stop local = [] then None else Some InterfaceConversion)"
    by (simp_all add: tabScan_scan_def Let_def fileList_Refresh_panic)
  show ?thesis
    using scanFiles_visits [of stop local] k n p z t by blast
qed

theorem scanFiles_stop_returns_collected_entries_witness:
  "scan_visits ex_local
     = [([''VirtualStore'', ''Windows''],
           Dir True [(''IPCAS2.ini'', File True True True ''x''),
                     (''more'', Dir True [(''ipcas2.ini'', File True True True ''yy'')])]),
        ([''VirtualStore'', ''Windows'', ''IPCAS2.ini''], File True True True ''x''),
        ([''VirtualStore'', ''Windows'', ''more''],
           Dir True [(''ipcas2.ini'', File True True True ''yy'')]),
        ([''VirtualStore'', ''Windows'', ''more'', ''ipcas2.ini''], File True True True ''yy''),
        ([''VirtualStore''],
           Dir True [(''Windows'',
             Dir True [(''IPCAS2.ini'', File True True True ''x''),
                       (''more'', Dir True [(''ipcas2.ini'', File True True True ''yy'')])])]),
        ([''VirtualStore'', ''Windows''],
           Dir True [(''IPCAS2.ini'', File True True True ''x''),
                     (''more'', Dir True [(''ipcas2.ini'', File True True True ''yy'')])]),
        ([''VirtualStore'', ''Windows'', ''IPCAS2.ini''], File True True True ''x''),
        ([''VirtualStore'', ''Windows'', ''more''],
           Dir True [(''ipcas2.ini'', File True True True ''yy'')]),
        ([''VirtualStore'', ''Windows'', ''more'', ''ipcas2.ini''], File True True True ''yy'')]
   \<and> scanFiles (Some 2) ex_local = [FileInfo [''VirtualStore'', ''Windows'', ''IPCAS2.ini''] 1]
   \<and> scanFiles (Some 4) ex_local
       = [FileInfo [''VirtualStore'', ''Windows'', ''IPCAS2.ini''] 1,
          FileInfo [''VirtualStore'', ''Windows'', ''more'', ''ipcas2.ini''] 2]
   \<and> prefix (scanFiles (Some 2) ex_local) (scanFiles None ex_local)
   \<and> scanFiles (Some 0) ex_local = []
   \<and> files (tabScan_scan (Some 2) ex_local) = map (\<lambda>f. (f, False)) (scanFiles (Some 2) ex_local)
   \<and> countLbl (tabScan_scan (Some 2) ex_local) = 1
   \<and> panicked (tabScan_scan (Some 2) ex_local) = Some InterfaceConversion"
proof -
  have v: "scan_visits ex_local
     = [([''VirtualStore'', ''Windows''],
           Dir True [(''IPCAS2.ini'', File True True True ''x''),
                     (''more'', Dir True [(''ipcas2.ini'', File True True True ''yy'')])]),
        ([''VirtualStore'', ''Windows'', ''IPCAS2.ini''], File True True True ''x''),
        ([''VirtualStore'', ''Windows'', ''more''],
           Dir True [(''ipcas2.ini'', File True True True ''yy'')]),
        ([''VirtualStore'', ''Windows'', ''more'', ''ipcas2.ini''], File True True True ''yy''),
        ([''VirtualStore''],
           Dir True [(''Windows'',
             Dir True [(''IPCAS2.ini'', File True True True ''x''),
                       (''more'', Dir True [(''ipcas2.ini'', File True True True ''yy'')])])]),
        ([''VirtualStore'', ''Windows''],
           Dir True [(''IPCAS2.ini'', File True True True ''x''),
                     (''more'', Dir True [(''ipcas2.ini'', File True True True ''yy'')])]),
        ([''VirtualStore'', ''Windows'', ''IPCAS2.ini''], File True True True ''x''),
        ([''VirtualStore'', ''Windows'', ''more''],
           Dir True [(''ipcas2.ini'', File True True True ''yy'')]),
        ([''VirtualStore'', ''Windows'', ''more'', ''ipcas2.ini''], File True True True ''yy'')]"
    by (simp add: scan_visits_def root_visits_def ex_local_def)
  have m: "scan_match ex_local ([''VirtualStore'', ''Windows'', ''IPCAS2.ini''], File True True True ''x'')
             = [FileInfo [''VirtualStore'', ''Windows'', ''IPCAS2.ini''] 1]"
          "scan_match ex_local ([''VirtualStore'', ''Windows'', ''more'', ''ipcas2.ini''], File True True True ''yy'')
             = [FileInfo [''VirtualStore'', ''Windows'', ''more'', ''ipcas2.ini''] 2]"
    by (simp_all add: scan_match_def Base_def isHidden_def lowerASCII_def ex_local_def)
  have s2: "scanFiles (Some 2) ex_local = [FileInfo [''VirtualStore'', ''Windows'', ''IPCAS2.ini''] 1]"
    using scanFiles_stop_returns_collected_entries [of "Some 2" ex_local 2, THEN conjunct2, THEN conjunct1]
    by (simp add: v m scan_match_dir)
  have s4: "scanFiles (Some 4) ex_local
       = [FileInfo [''VirtualStore'', ''Windows'', ''IPCAS2.ini''] 1,
          FileInfo [''VirtualStore'', ''Windows'', ''more'', ''ipcas2.ini''] 2]"
    using scanFiles_stop_returns_collected_entries [of "Some 4" ex_local 4, THEN conjunct2, THEN conjunct1]
    by (simp add: v m scan_match_dir)
  have r: "prefix (scanFiles (Some 2) ex_local) (scanFiles None ex_local)
      \<and> scanFiles (Some 0) ex_local = []
      \<and> files (tabScan_scan (Some 2) ex_local) = map (\<lambda>f. (f, False)) (scanFiles (Some 2) ex_local)
      \<and> countLbl (tabScan_scan (Some 2) ex_local) = length (scanFiles (Some 2) ex_local)
      \<and> panicked (tabScan_scan (Some 2) ex_local)
          = (if scanFiles (Some 2) ex_local = [] then None else Some InterfaceConversion)"
    using scanFiles_stop_returns_collected_entries [of "Some 2" ex_local 2] by blast
  have "countLbl (tabScan_scan (Some 2) ex_local) = 1
      \<and> panicked (tabScan_scan (Some 2) ex_local) = Some InterfaceConversion"
    using r by (simp add: s2)
  then show ?thesis
    using v s2 s4 r by blast
qed

text \<open>
  C6 as stated fails: the stop is seen after the first file has been visited, and
  the scan returns that file, not an empty result; the goroutine stores it in
  \<^verbatim>\<open>files\<close> and shows the count 1 with the status "done", before the refresh of
  the list panics. The scan that is not stopped returns four entries.
\<close>

theorem scanFiles_stop_partial_counterexample:
  "scanFiles (Some 2) ex_local = [FileInfo [''VirtualStore'', ''Windows'', ''IPCAS2.ini''] 1]
   \<and> files (tabScan_scan (Some 2) ex_local)
       = [(FileInfo [''VirtualStore'', ''Windows'', ''IPCAS2.ini''] 1, False)]
   \<and> statusLbl (tabScan_scan (Some 2) ex_local) = ScanDone
   \<and> countLbl (tabScan_scan (Some 2) ex_local) = 1
   \<and> panicked (tabScan_scan (Some 2) ex_local) = Some InterfaceConversion
   \<and> scanFiles None ex_local
       = [FileInfo [''VirtualStore'', ''Windows'', ''IPCAS2.ini''] 1,
          FileInfo [''VirtualStore'', ''Windows'', ''more'', ''ipcas2.ini''] 2,
          FileInfo [''VirtualStore'', ''Windows'', ''IPCAS2.ini''] 1,
          FileInfo [''VirtualStore'', ''Windows'', ''more'', ''ipcas2.ini''] 2]"
  by (simp add: scanFiles_def scanFiles_run_def scanRoot_def stat_def Walk_def ex_local_def
        scanFiles_fn_def stopped_def Let_def lowerASCII_def Base_def isHidden_def tabScan_scan_def
        fileList_Refresh_def fileList_update_def fileList_create_def NewBorder_def)

section \<open>What a write changes in a tree\<close>

lemma lookup_append: "lookup rt (p @ r) = lookup (lookup rt p) r"
proof (induction p arbitrary: rt)
  case Nil
  then show ?case by (cases rt) simp_all
next
  case (Cons x xs)
  then show ?case by (cases rt) simp_all
qed

lemma lookup_Dir_Cons:
  "lookup (Some (Dir l es)) (y # ys) = lookup (map_of es y) ys"
  by simp

lemma kind_at_Nil:
  "kind_at None [] = KNone"
  "kind_at (Some (File h r w c)) [] = KFile w c"
  "kind_at (Some (Dir l es)) [] = KDir"
  by (simp_all add: kind_at_def)

lemma kind_at_Cons:
  "kind_at None (y # ys) = KNone"
  "kind_at (Some (File h r w c)) (y # ys) = KNone"
  "kind_at (Some (Dir l es)) (y # ys) = kind_at (map_of es y) ys"
  by (simp_all add: kind_at_def)

lemma kind_at_None [simp]: "kind_at None q = KNone"
  by (simp add: kind_at_def)

text \<open>mkdirAll\<close>

lemma mkdirAll_None: "\<exists>n. mkdirAll None p = Inr n \<and> (\<forall>q. kind_at (Some n) q = (if prefix q p then KDir else KNone))"
proof (induction p)
  case Nil
  show ?case
  proof (intro exI conjI allI)
    show "mkdirAll None [] = Inr (Dir True [])" by simp
    fix q show "kind_at (Some (Dir True [])) q = (if prefix q [] then KDir else KNone)"
      by (cases q) (simp_all add: kind_at_Nil kind_at_Cons)
  qed
next
  case (Cons x xs)
  then obtain c where c: "mkdirAll None xs = Inr c"
      "\<And>q. kind_at (Some c) q = (if prefix q xs then KDir else KNone)" by blast
  show ?case
  proof (intro exI conjI allI)
    show "mkdirAll None (x # xs) = Inr (Dir True [(x, c)])" using c(1) by simp
    fix q show "kind_at (Some (Dir True [(x, c)])) q = (if prefix q (x # xs) then KDir else KNone)"
      by (cases q) (simp_all add: kind_at_Nil kind_at_Cons c(2))
  qed
qed

lemma mkdirAll_ok:
  "(\<forall>q w c. prefix q p \<longrightarrow> kind_at rt q \<noteq> KFile w c) \<Longrightarrow>
     \<exists>n. mkdirAll rt p = Inr n \<and> (\<forall>q. kind_at (Some n) q = (if prefix q p then KDir else kind_at rt q))"
proof (induction p arbitrary: rt)
  case Nil
  show ?case
  proof (cases rt)
    case None
    then show ?thesis using mkdirAll_None [of "[]"] by auto
  next
    case (Some n)
    show ?thesis
    proof (cases n)
      case (File h r w c)
      then show ?thesis using Nil Some by (auto simp: kind_at_Nil)
    next
      case (Dir l es)
      then show ?thesis using Some by (auto simp: kind_at_Nil)
    qed
  qed
next
  case (Cons x xs)
  show ?case
  proof (cases rt)
    case None
    then show ?thesis using mkdirAll_None [of "x # xs"] by auto
  next
    case (Some n)
    show ?thesis
    proof (cases n)
      case (File h r w c)
      then have "kind_at rt [] = KFile w c" using Some by (simp add: kind_at_Nil)
      then show ?thesis using Cons.prems by (metis Nil_prefix)
    next
      case (Dir l es)
      have "\<forall>q w c. prefix q xs \<longrightarrow> kind_at (map_of es x) q \<noteq> KFile w c"
      proof (intro allI impI)
        fix q w c assume "prefix q xs"
        then have "prefix (x # q) (x # xs)" by simp
        then have "kind_at rt (x # q) \<noteq> KFile w c" using Cons.prems by blast
        then show "kind_at (map_of es x) q \<noteq> KFile w c" using Some Dir by (simp add: kind_at_Cons)
      qed
      then obtain c where c: "mkdirAll (map_of es x) xs = Inr c"
        "\<And>q. kind_at (Some c) q = (if prefix q xs then KDir else kind_at (map_of es x) q)"
        using Cons.IH by blast
      show ?thesis
      proof (intro exI conjI allI)
        show "mkdirAll rt (x # xs) = Inr (Dir l (ins x c es))" using Some Dir c(1) by simp
        fix q show "kind_at (Some (Dir l (ins x c es))) q
                    = (if prefix q (x # xs) then KDir else kind_at rt q)"
          using Some Dir by (cases q) (simp_all add: kind_at_Nil kind_at_Cons map_of_ins c(2))
      qed
    qed
  qed
qed

lemma mkdirAll_fail:
  "prefix q p \<Longrightarrow> kind_at rt q = KFile w c \<Longrightarrow> \<exists>e. mkdirAll rt p = Inl e"
proof (induction p arbitrary: rt q)
  case Nil
  then show ?case by (cases rt; cases "the rt") (auto simp: kind_at_Nil)
next
  case (Cons x xs)
  show ?case
  proof (cases rt)
    case None
    then show ?thesis using Cons.prems by simp
  next
    case (Some n)
    show ?thesis
    proof (cases n)
      case (File h r w' c')
      then show ?thesis using Some by simp
    next
      case (Dir l es)
      show ?thesis
      proof (cases q)
        case Nil
        then show ?thesis using Cons.prems Some Dir by (simp add: kind_at_Nil)
      next
        case (Cons y ys)
        then have "y = x" "prefix ys xs" using Cons.prems(1) by simp_all
        moreover have "kind_at (map_of es x) ys = KFile w c"
          using Cons.prems(2) Some Dir Cons \<open>y = x\<close> by (simp add: kind_at_Cons)
        ultimately obtain e where "mkdirAll (map_of es x) xs = Inl e"
          using Cons.IH by blast
        then show ?thesis using Some Dir by simp
      qed
    qed
  qed
qed

lemma writeFile_ok:
  assumes "p \<noteq> [] \<longrightarrow> kind_at rt (butlast p) = KDir"
      and "kind_at rt p = KNone \<or> (\<exists>c. kind_at rt p = KFile True c)"
  shows "\<exists>n. writeFile rt p d = Inr n
            \<and> (\<forall>q. kind_at (Some n) q = (if q = p then KFile True d else kind_at rt q))"
  using assms
proof (induction p arbitrary: rt)
  case Nil
  show ?case
  proof (cases rt)
    case None
    have "kind_at (Some (File False True True d)) q = (if q = [] then KFile True d else KNone)" for q
      by (cases q) (simp_all add: kind_at_Nil kind_at_Cons)
    then show ?thesis using None by simp
  next
    case (Some n)
    show ?thesis
    proof (cases n)
      case (File h r w c)
      then have w: "w" using Nil.prems(2) Some by (simp add: kind_at_Nil)
      have "kind_at (Some (File h r True d)) q
            = (if q = [] then KFile True d else kind_at (Some (File h r w c)) q)" for q
        by (cases q) (simp_all add: kind_at_Nil kind_at_Cons)
      then show ?thesis using Some File w by simp
    next
      case (Dir l es)
      then show ?thesis using Nil.prems(2) Some by (simp add: kind_at_Nil)
    qed
  qed
next
  case (Cons x xs)
  have par: "kind_at rt (butlast (x # xs)) = KDir" using Cons.prems(1) by simp
  show ?case
  proof (cases rt)
    case None
    then show ?thesis using par by simp
  next
    case (Some n)
    show ?thesis
    proof (cases n)
      case (File h r w c)
      then show ?thesis using par Some by (cases xs) (simp_all add: kind_at_Nil kind_at_Cons)
    next
      case (Dir l es)
      have p1: "xs \<noteq> [] \<longrightarrow> kind_at (map_of es x) (butlast xs) = KDir"
        using par Some Dir by (auto simp: kind_at_Cons)
      have p2: "kind_at (map_of es x) xs = KNone \<or> (\<exists>c. kind_at (map_of es x) xs = KFile True c)"
        using Cons.prems(2) Some Dir by (simp add: kind_at_Cons)
      obtain c where c: "writeFile (map_of es x) xs d = Inr c"
        "\<And>q. kind_at (Some c) q = (if q = xs then KFile True d else kind_at (map_of es x) q)"
        using Cons.IH [OF p1 p2] by blast
      show ?thesis
      proof (intro exI conjI allI)
        show "writeFile rt (x # xs) d = Inr (Dir l (ins x c es))" using Some Dir c(1) by simp
        fix q show "kind_at (Some (Dir l (ins x c es))) q
                    = (if q = x # xs then KFile True d else kind_at rt q)"
          using Some Dir by (cases q) (simp_all add: kind_at_Nil kind_at_Cons map_of_ins c(2))
      qed
    qed
  qed
qed

lemma writeFile_Inr_cond:
  "writeFile rt p d = Inr n \<Longrightarrow>
     (p \<noteq> [] \<longrightarrow> kind_at rt (butlast p) = KDir)
     \<and> (kind_at rt p = KNone \<or> (\<exists>c. kind_at rt p = KFile True c))"
proof (induction rt p d arbitrary: n rule: writeFile.induct)
  case (1 data)
  then show ?case by simp
next
  case (2 x xs data)
  then show ?case by simp
next
  case (3 h r w c data)
  then show ?case by (simp add: kind_at_Nil split: if_splits)
next
  case (4 h r w c x xs data)
  then show ?case by simp
next
  case (5 l es data)
  then show ?case by simp
next
  case (6 l es x xs data)
  from "6.prems" obtain c where c: "writeFile (map_of es x) xs data = Inr c"
    by (auto split: sum.splits)
  have ih: "(xs \<noteq> [] \<longrightarrow> kind_at (map_of es x) (butlast xs) = KDir)
     \<and> (kind_at (map_of es x) xs = KNone \<or> (\<exists>c. kind_at (map_of es x) xs = KFile True c))"
    using "6.IH" [OF c] .
  show ?case
  proof (cases xs)
    case Nil
    then show ?thesis using ih by (simp add: kind_at_Nil kind_at_Cons)
  next
    case (Cons y ys)
    then show ?thesis using ih by (simp add: kind_at_Cons)
  qed
qed

lemma kind_at_prefix_dir:
  assumes "kind_at rt (r @ s) \<noteq> KNone" and "s \<noteq> []"
  shows "kind_at rt r = KDir"
proof -
  have l: "lookup rt (r @ s) = lookup (lookup rt r) s" by (rule lookup_append)
  show ?thesis
  proof (cases "lookup rt r")
    case None
    then show ?thesis using assms l by (simp add: kind_at_def)
  next
    case (Some n)
    show ?thesis
    proof (cases n)
      case (File h r' w c)
      then show ?thesis using assms l Some by (cases s) (simp_all add: kind_at_def)
    next
      case (Dir l' es)
      then show ?thesis using Some by (simp add: kind_at_def)
    qed
  qed
qed

lemma strict_prefix_butlast:
  "p \<noteq> [] \<Longrightarrow> prefix r (butlast p) \<longleftrightarrow> strict_prefix r p"
proof -
  assume "p \<noteq> []"
  then have p: "p = butlast p @ [last p]" by simp
  have "strict_prefix r (butlast p @ [last p]) \<longleftrightarrow> prefix r (butlast p)"
    by (auto simp: strict_prefix_def)
  then show ?thesis using p by simp
qed

lemma not_prefix_butlast: "p \<noteq> [] \<Longrightarrow> \<not> prefix p (butlast p)"
  by (metis strict_prefix_butlast strict_prefix_def)

lemma free_for_put:
  assumes f: "free_for rt p"
  shows "can_write rt p"
    and "kind_at (put rt p d) r
           = (if r = p then KFile True d else if strict_prefix r p then KDir else kind_at rt r)"
proof -
  have tgt: "kind_at rt p = KNone \<or> (\<exists>c. kind_at rt p = KFile True c)"
    using f by (simp add: free_for_def)
  have main: "\<exists>n. writeFile (mkdirParent rt p) p d' = Inr n
     \<and> (\<forall>r. kind_at (Some n) r
           = (if r = p then KFile True d' else if strict_prefix r p then KDir else kind_at rt r))"
    for d'
  proof (cases "p = []")
    case True
    have "\<exists>n. writeFile rt p d' = Inr n
            \<and> (\<forall>q. kind_at (Some n) q = (if q = p then KFile True d' else kind_at rt q))"
      by (rule writeFile_ok) (use True tgt in simp_all)
    then show ?thesis using True by (auto simp: mkdirParent_def)
  next
    case False
    let ?b = "butlast p"
    have nf: "\<forall>q w c. prefix q ?b \<longrightarrow> kind_at rt q \<noteq> KFile w c"
      using f False by (simp add: free_for_def strict_prefix_butlast)
    obtain n where n: "mkdirAll rt ?b = Inr n"
      "\<And>q. kind_at (Some n) q = (if prefix q ?b then KDir else kind_at rt q)"
      using mkdirAll_ok [OF nf] by blast
    have mp: "mkdirParent rt p = Some n" using False n(1) by (simp add: mkdirParent_def)
    have k1: "p \<noteq> [] \<longrightarrow> kind_at (Some n) ?b = KDir" by (simp add: n(2))
    have k2: "kind_at (Some n) p = KNone \<or> (\<exists>c. kind_at (Some n) p = KFile True c)"
      using tgt not_prefix_butlast [OF False] by (simp add: n(2))
    obtain n' where n': "writeFile (Some n) p d' = Inr n'"
      "\<And>q. kind_at (Some n') q = (if q = p then KFile True d' else kind_at (Some n) q)"
      using writeFile_ok [OF k1 k2] by blast
    show ?thesis
      using n'(1) mp by (auto simp: n'(2) n(2) strict_prefix_butlast [OF False])
  qed
  show "can_write rt p"
    using main [of "[]"] by (auto simp: can_write_def)
  show "kind_at (put rt p d) r
           = (if r = p then KFile True d else if strict_prefix r p then KDir else kind_at rt r)"
    using main [of d] by (auto simp: put_def)
qed

lemma can_write_free_for:
  assumes c: "can_write rt p"
  shows "free_for rt p"
proof -
  obtain t where t: "writeFile (mkdirParent rt p) p [] = Inr t"
    using c by (auto simp: can_write_def split: sum.splits)
  note cond = writeFile_Inr_cond [OF t]
  show ?thesis
  proof (cases "p = []")
    case True
    then show ?thesis using cond by (simp add: free_for_def mkdirParent_def)
  next
    case False
    let ?b = "butlast p"
    have nf: "\<forall>q w c. prefix q ?b \<longrightarrow> kind_at rt q \<noteq> KFile w c"
    proof (cases "mkdirAll rt ?b")
      case (Inl e)
      then have "mkdirParent rt p = rt" using False by (simp add: mkdirParent_def)
      then have d: "kind_at rt ?b = KDir" using cond False by simp
      show ?thesis
      proof (intro allI impI)
        fix q w c' assume "prefix q ?b"
        then obtain s where s: "?b = q @ s" by (auto simp: prefix_def)
        show "kind_at rt q \<noteq> KFile w c'"
        proof (cases "s = []")
          case True
          then show ?thesis using d s by simp
        next
          case False
          have "kind_at rt (q @ s) \<noteq> KNone" using d s by simp
          then have "kind_at rt q = KDir" using False by (rule kind_at_prefix_dir)
          then show ?thesis by simp
        qed
      qed
    next
      case (Inr n)
      show ?thesis
      proof (intro allI impI notI)
        fix q w c' assume "prefix q ?b" "kind_at rt q = KFile w c'"
        then obtain e where "mkdirAll rt ?b = Inl e" using mkdirAll_fail by blast
        then show False using Inr by simp
      qed
    qed
    obtain n where n: "mkdirAll rt ?b = Inr n"
      "\<And>q. kind_at (Some n) q = (if prefix q ?b then KDir else kind_at rt q)"
      using mkdirAll_ok [OF nf] by blast
    have mp: "mkdirParent rt p = Some n" using False n(1) by (simp add: mkdirParent_def)
    have "kind_at rt p = KNone \<or> (\<exists>c. kind_at rt p = KFile True c)"
      using cond mp not_prefix_butlast [OF False] by (simp add: n(2))
    then show ?thesis using nf False by (simp add: free_for_def strict_prefix_butlast)
  qed
qed

lemma file_at_kind:
  "file_at rt q = (case kind_at rt q of KNone \<Rightarrow> None | KFile w c \<Rightarrow> Some c | KDir \<Rightarrow> None)"
  by (simp add: file_at_def kind_at_def split: option.splits node.splits)

lemma put_file_at:
  assumes "can_write rt p"
  shows "file_at (put rt p d) q = (if q = p then Some d else file_at rt q)"
proof -
  have f: "free_for rt p" using assms by (rule can_write_free_for)
  have k: "kind_at (put rt p d) q
           = (if q = p then KFile True d else if strict_prefix q p then KDir else kind_at rt q)"
    using f by (rule free_for_put(2))
  have "file_at rt q = None" if "strict_prefix q p"
    using f that by (auto simp: free_for_def file_at_kind split: kind.splits)
  then show ?thesis by (auto simp: file_at_kind k)
qed

lemma put_can_write:
  assumes p: "can_write rt p" and q: "can_write rt q"
      and inc: "\<not> prefix p q" "\<not> prefix q p"
  shows "can_write (put rt p d) q"
proof -
  have fp: "free_for rt p" using p by (rule can_write_free_for)
  have fq: "free_for rt q" using q by (rule can_write_free_for)
  note k = free_for_put(2) [OF fp, of d]
  have "free_for (put rt p d) q"
    unfolding free_for_def
  proof (intro conjI allI impI)
    fix r w c assume r: "strict_prefix r q"
    then have "r \<noteq> p" using inc(1) by (auto simp: strict_prefix_def)
    then show "kind_at (put rt p d) r \<noteq> KFile w c"
      using fq r by (auto simp: k free_for_def)
  next
    have "q \<noteq> p" using inc by auto
    moreover have "\<not> strict_prefix q p" using inc(2) by (simp add: strict_prefix_def)
    ultimately show "kind_at (put rt p d) q = KNone \<or> (\<exists>c. kind_at (put rt p d) q = KFile True c)"
      using fq by (simp add: k free_for_def)
  qed
  then show ?thesis by (rule free_for_put(1))
qed

section \<open>The archive of a backup and its restore\<close>

lemma createBackup_zip:
  "fst (WalkDir (createBackup_fn tgt) tgt [])
     = map (\<lambda>pf. (fst pf, ZData (stored_bytes tgt (fst pf)))) (regular_files tgt)"
proof -
  let ?fn = "createBackup_fn tgt"
  have dir: "\<And>s p i e. IsDir i \<Longrightarrow> ?fn s p (Some i) e = (s, None)"
    by (simp add: createBackup_fn_def split: option.splits)
  have fil: "\<And>s p i. \<not> IsDir i \<Longrightarrow> snd (?fn s p (Some i) None) = None"
    by (simp add: createBackup_fn_def split: sum.splits)
  have nil: "\<And>s p e. ?fn s p None (Some e) = (s, None)"
    by (simp add: createBackup_fn_def)
  have w: "WalkDir ?fn tgt [] = (foldl (visit ?fn) [] (regular_files tgt), None)"
    using dir fil nil by (rule WalkDir_visits_files)
  have v: "\<not> IsDir (info_of (snd pf)) \<Longrightarrow>
             visit ?fn z pf = z @ [(fst pf, ZData (stored_bytes tgt (fst pf)))]" for z pf
    by (simp add: visit_def createBackup_fn_def stored_bytes_def split: sum.splits)
  have f: "(\<forall>pf \<in> set xs. \<not> IsDir (info_of (snd pf))) \<Longrightarrow>
        foldl (visit ?fn) z xs = z @ map (\<lambda>pf. (fst pf, ZData (stored_bytes tgt (fst pf)))) xs" for z xs
  proof (induction xs arbitrary: z)
    case Nil
    then show ?case by simp
  next
    case (Cons a xs)
    then show ?case by (simp add: v)
  qed
  have files: "\<forall>pf \<in> set (regular_files tgt). \<not> IsDir (info_of (snd pf))"
    by (cases tgt) (auto simp: regular_files_def dest: files_of_are_files(1))
  show ?thesis using f [OF files, of "[]"] by (simp add: w)
qed

lemma target_restoreLoop:
  "target (restoreLoop i n (map (\<lambda>pd. (fst pd, ZData (snd pd))) xs) w)
     = foldl (\<lambda>t pd. put t (fst pd) (snd pd)) (target w) xs"
proof (induction xs arbitrary: i w)
  case Nil
  then show ?case by simp
next
  case (Cons a xs)
  show ?case
    by (simp add: Cons.IH Let_def put_def split: sum.splits)
qed

lemma foldl_put_file_at:
  assumes "distinct (map fst xs)"
      and "\<forall>a \<in> set xs. \<forall>b \<in> set xs. prefix (fst a) (fst b) \<longrightarrow> fst a = fst b"
      and "\<forall>a \<in> set xs. can_write t (fst a)"
  shows "file_at (foldl (\<lambda>t pd. put t (fst pd) (snd pd)) t xs) q
           = (case map_of xs q of None \<Rightarrow> file_at t q | Some d \<Rightarrow> Some d)"
  using assms
proof (induction xs arbitrary: t)
  case Nil
  then show ?case by simp
next
  case (Cons a xs)
  obtain p d where a: "a = (p, d)" by (cases a)
  let ?t = "put t p d"
  have cw: "can_write t p" using Cons.prems(3) a by simp
  have d: "distinct (map fst xs)" using Cons.prems(1) by simp
  have inc: "\<forall>a \<in> set xs. \<forall>b \<in> set xs. prefix (fst a) (fst b) \<longrightarrow> fst a = fst b"
    using Cons.prems(2) by simp
  have cw': "\<forall>b \<in> set xs. can_write ?t (fst b)"
  proof
    fix b assume b: "b \<in> set xs"
    have ne: "fst b \<noteq> p" using Cons.prems(1) a b by auto
    have "\<not> prefix p (fst b)" using Cons.prems(2) a b ne by fastforce
    moreover have "\<not> prefix (fst b) p" using Cons.prems(2) a b ne by fastforce
    moreover have "can_write t (fst b)" using Cons.prems(3) b by simp
    ultimately show "can_write ?t (fst b)" using cw by (intro put_can_write) simp_all
  qed
  have ih: "file_at (foldl (\<lambda>t pd. put t (fst pd) (snd pd)) ?t xs) q
           = (case map_of xs q of None \<Rightarrow> file_at ?t q | Some d \<Rightarrow> Some d)"
    by (rule Cons.IH [OF d inc cw'])
  have np: "map_of xs p = None" using Cons.prems(1) a by (simp add: map_of_eq_None_iff)
  show ?case
    using ih np by (auto simp: a put_file_at [OF cw] split: option.splits)
qed

lemma regular_files_incomparable:
  assumes wf: "wf_root rt"
      and a: "(p, f) \<in> set (regular_files rt)" and b: "(q, g) \<in> set (regular_files rt)"
      and pre: "prefix p q"
  shows "p = q"
proof -
  obtain r where r: "q = p @ r" using pre by (auto simp: prefix_def)
  have lp: "lookup rt p = Some f" using wf a by (rule regular_files_lookup)
  have lq: "lookup rt q = Some g" using wf b by (rule regular_files_lookup)
  have "\<not> IsDir (info_of f)"
    using a by (cases rt) (auto simp: regular_files_def dest: files_of_are_files(1))
  then obtain h rd w c where f: "f = File h rd w c" by (cases f) simp_all
  have "lookup rt q = lookup (Some f) r" using r lp by (simp add: lookup_append)
  then have "r = []" using lq f by (cases r) simp_all
  then show ?thesis using r by simp
qed

lemma files_of_entries_mem:
  "(x, c) \<in> set es \<Longrightarrow> set (files_of (p @ [x]) c) \<subseteq> set (files_of_entries p es)"
  by (induction es) auto

lemma files_of_complete:
  "lookup (Some n) r = Some (File h rd w c) \<Longrightarrow> (p @ r, File h rd w c) \<in> set (files_of p n)"
proof (induction r arbitrary: n p)
  case Nil
  then show ?case by simp
next
  case (Cons x xs)
  show ?case
  proof (cases n)
    case (File h' r' w' c')
    then show ?thesis using Cons.prems by simp
  next
    case (Dir l es)
    then have l: "lookup (map_of es x) xs = Some (File h rd w c)" using Cons.prems by simp
    then obtain ch where ch: "map_of es x = Some ch" by (cases "map_of es x") simp_all
    have "((p @ [x]) @ xs, File h rd w c) \<in> set (files_of (p @ [x]) ch)"
      using l ch by (intro Cons.IH) simp
    moreover have "(x, ch) \<in> set es" using ch by (rule map_of_SomeD)
    ultimately show ?thesis using Dir files_of_entries_mem by fastforce
  qed
qed

lemma regular_files_file_at:
  assumes "wf_root rt"
  shows "q \<in> fst ` set (regular_files rt) \<longleftrightarrow> file_at rt q \<noteq> None"
proof
  assume "q \<in> fst ` set (regular_files rt)"
  then obtain f where f: "(q, f) \<in> set (regular_files rt)" by auto
  have "lookup rt q = Some f" using assms f by (rule regular_files_lookup)
  moreover have "\<not> IsDir (info_of f)"
    using f by (cases rt) (auto simp: regular_files_def dest: files_of_are_files(1))
  ultimately show "file_at rt q \<noteq> None" by (cases f) (simp_all add: file_at_def)
next
  assume "file_at rt q \<noteq> None"
  then obtain h rd w c where l: "lookup rt q = Some (File h rd w c)"
    by (auto simp: file_at_def split: option.splits node.splits)
  then obtain n where n: "rt = Some n" by (cases rt) simp_all
  have "([] @ q, File h rd w c) \<in> set (files_of [] n)"
    using l n by (intro files_of_complete) simp
  then show "q \<in> fst ` set (regular_files rt)"
    using n by (force simp: regular_files_def)
qed

lemma createBackup_new_zip:
  assumes nb: "backups w \<noteq> BackupBlocked" and wf: "wf_bdir (backups w)"
      and lt: "\<forall>b \<in> set (listBackups (backups w)). b < backupName now"
  shows "openZip (backups (fst (createBackup now w))) (backupName now)
           = Some (fst (WalkDir (createBackup_fn (target w)) (target w) []))"
proof -
  obtain es where es: "distinct (map fst es)"
      "backups w = BackupDir es \<or> (backups w = BackupMissing \<and> es = [])"
      "listBackups (backups w) = listBackups (BackupDir es)"
    using listBackups_cases [OF nb wf] by blast
  show ?thesis by (rule createBackup_dir(6) [OF es(1,2)])
qed

lemma target_launchIPCAS [simp]: "target (launchIPCAS w) = target w"
  by (simp add: launchIPCAS_def split: sum.splits)

lemma restoreLoop_frame:
  "target w = target w' \<Longrightarrow>
     target (restoreLoop i n zs w) = target (restoreLoop i n zs w')"
proof (induction zs arbitrary: i w w')
  case Nil
  then show ?case by simp
next
  case (Cons z zs)
  obtain name d where z: "z = (name, d)" by (cases z)
  show ?case
    unfolding z using Cons.prems
    by (cases d) (auto simp: Let_def intro!: Cons.IH)
qed

lemma restoreLoop_gui_frame:
  "target (restoreLoop i n zs (w\<lparr>gui := u\<rparr>)) = target (restoreLoop i n zs w)"
  by (rule restoreLoop_frame) simp

lemma map_of_map_key:
  "map_of (map (\<lambda>pf. (fst pf, g (fst pf))) xs) q = (if q \<in> fst ` set xs then Some (g q) else None)"
  by (induction xs) auto

lemma backupName_not_Nil: "backupName now \<noteq> []"
  by (simp add: backupName_def)

lemma restore_round_trip:
  assumes wfS: "wf_root (target w)"
      and nb: "backups w \<noteq> BackupBlocked" and wf: "wf_bdir (backups w)"
      and lt: "\<forall>b \<in> set (listBackups (backups w)). b < backupName now"
      and cw: "\<forall>pf \<in> set (regular_files (target w)). can_write M (fst pf)"
  shows "file_at (target (backup_mutate_restore now M w)) q
           = (case file_at (target w) q of
                None \<Rightarrow> file_at M q
              | Some c \<Rightarrow> Some (stored_bytes (target w) q))"
proof -
  let ?S = "target w"
  let ?w1 = "fst (createBackup now w)"
  let ?xs = "map (\<lambda>pf. (fst pf, stored_bytes ?S (fst pf))) (regular_files ?S)"
  let ?z = "map (\<lambda>pd. (fst pd, ZData (snd pd))) ?xs"
  have z: "openZip (backups ?w1) (backupName now) = Some ?z"
    using createBackup_new_zip [OF nb wf lt] by (simp add: createBackup_zip comp_def)
  have t: "target (backup_mutate_restore now M w)
           = foldl (\<lambda>t pd. put t (fst pd) (snd pd)) M ?xs"
    using z target_restoreLoop [of 0 "length ?z" ?xs]
    by (simp add: backup_mutate_restore_def Let_def doRestore_def backupName_not_Nil
          killIPCAS_def restoreLoop_gui_frame)
  have d: "distinct (map fst ?xs)"
    using regular_files_distinct [OF wfS] by (simp add: comp_def)
  have inc: "\<forall>a \<in> set ?xs. \<forall>b \<in> set ?xs. prefix (fst a) (fst b) \<longrightarrow> fst a = fst b"
    using regular_files_incomparable [OF wfS] by fastforce
  have cw': "\<forall>a \<in> set ?xs. can_write M (fst a)" using cw by auto
  have "file_at (target (backup_mutate_restore now M w)) q
        = (case map_of ?xs q of None \<Rightarrow> file_at M q | Some d \<Rightarrow> Some d)"
    unfolding t by (rule foldl_put_file_at [OF d inc cw'])
  also have "\<dots> = (case file_at ?S q of None \<Rightarrow> file_at M q | Some c \<Rightarrow> Some (stored_bytes ?S q))"
    using regular_files_file_at [OF wfS, of q]
    by (auto simp: map_of_map_key split: option.splits)
  finally show ?thesis .
qed

section \<open>The claim about the round trip\<close>

text \<open>
  C4, as the code has it. Let the installation \<open>S\<close> have distinct entry names, the
  backup directory be usable, and the new backup name be greater than the old ones
  (so that it is kept). Create the backup, let the installation become any tree
  \<open>M\<close> in which every file path of \<open>S\<close> can still be written (no directory stands
  where \<open>S\<close> has a file, no file where \<open>S\<close> has a directory on the way, no locked
  file), and restore from that backup. Then every file of \<open>S\<close> is back with the
  bytes the backup stored (its content if it could be read), and at every other path
  the tree holds what \<open>M\<close> holds there: files that the mutation added stay.
\<close>

theorem restore_puts_back_backed_up_files:
  assumes "wf_root (target w)"
      and "backups w \<noteq> BackupBlocked" and "wf_bdir (backups w)"
      and "\<forall>b \<in> set (listBackups (backups w)). b < backupName now"
      and "\<forall>pf \<in> set (regular_files (target w)). can_write M (fst pf)"
  shows "file_at (target (backup_mutate_restore now M w)) q
           = (case file_at (target w) q of
                None \<Rightarrow> file_at M q
              | Some c \<Rightarrow> Some (stored_bytes (target w) q))
       \<and> (readFile (target w) q = Inr c \<longrightarrow>
            file_at (target (backup_mutate_restore now M w)) q = Some c)"
proof -
  have a: "file_at (target (backup_mutate_restore now M w)) q
           = (case file_at (target w) q of
                None \<Rightarrow> file_at M q
              | Some c \<Rightarrow> Some (stored_bytes (target w) q))"
    using assms by (rule restore_round_trip)
  have "file_at (target w) q = Some c \<and> stored_bytes (target w) q = c"
    if "readFile (target w) q = Inr c"
    using that
    by (auto simp: readFile_def file_at_def stored_bytes_def split: option.splits node.splits if_splits)
  then show ?thesis using a by auto
qed

theorem restore_puts_back_backed_up_files_witness:
  "wf_root (target ex_backup_world)
   \<and> backups ex_backup_world \<noteq> BackupBlocked
   \<and> wf_bdir (backups ex_backup_world)
   \<and> listBackups (backups ex_backup_world)
       = [''BK_20240101_000004.zip'', ''BK_20240101_000003.zip'',
          ''BK_20240101_000002.zip'', ''BK_20240101_000001.zip'']
   \<and> ''BK_20240101_000004.zip'' < backupName ''20240101_000005''
   \<and> regular_files (target ex_backup_world) = [([''a.txt''], File False True True ''1'')]
   \<and> can_write ex_mutated [''a.txt'']
   \<and> readFile (target ex_backup_world) [''a.txt''] = Inr ''1''
   \<and> file_at ex_mutated [''a.txt''] = Some ''9''
   \<and> file_at (target (backup_mutate_restore ''20240101_000005'' ex_mutated ex_backup_world)) [''a.txt'']
       = Some ''1''"
proof -
  have l: "listBackups (backups ex_backup_world)
      = [''BK_20240101_000004.zip'', ''BK_20240101_000003.zip'',
         ''BK_20240101_000002.zip'', ''BK_20240101_000001.zip'']"
    by (simp add: ex_backup_world_def listBackups_def sortReverse_def isBackupName_def
          HasPrefix_def HasSuffix_def)
  have h1: "wf_root (target ex_backup_world)"
    by (simp add: ex_backup_world_def ex_tgt_def wf_root_def)
  have h2: "backups ex_backup_world \<noteq> BackupBlocked" by (simp add: ex_backup_world_def)
  have h3: "wf_bdir (backups ex_backup_world)" by (simp add: ex_backup_world_def wf_bdir_def)
  have h4: "\<forall>b \<in> set (listBackups (backups ex_backup_world)). b < backupName ''20240101_000005''"
    by (simp add: l backupName_def)
  have h5: "\<forall>pf \<in> set (regular_files (target ex_backup_world)). can_write ex_mutated (fst pf)"
    by (simp add: ex_backup_world_def ex_tgt_def regular_files_def can_write_def ex_mutated_def
          mkdirParent_def)
  have r: "readFile (target ex_backup_world) [''a.txt''] = Inr ''1''"
    by (simp add: ex_backup_world_def ex_tgt_def readFile_def)
  have m: "file_at ex_mutated [''a.txt''] = Some ''9''"
    by (simp add: ex_mutated_def file_at_def)
  have "file_at (target (backup_mutate_restore ''20240101_000005'' ex_mutated ex_backup_world)) [''a.txt'']
       = Some ''1''"
    using restore_puts_back_backed_up_files [OF h1 h2 h3 h4 h5, of "[''a.txt'']" "''1''"] r
    by blast
  moreover have "''BK_20240101_000004.zip'' < backupName ''20240101_000005''"
    by (simp add: backupName_def)
  moreover have "regular_files (target ex_backup_world) = [([''a.txt''], File False True True ''1'')]"
    by (simp add: ex_backup_world_def ex_tgt_def regular_files_def)
  moreover have "can_write ex_mutated [''a.txt'']"
    by (simp add: can_write_def ex_mutated_def mkdirParent_def)
  ultimately show ?thesis
    using h1 h2 h3 l r m by blast
qed


text \<open>
  C4 as stated fails: the mutation changes \<^verbatim>\<open>a.txt\<close> and adds \<^verbatim>\<open>b.txt\<close>; after
  the restore \<^verbatim>\<open>b.txt\<close> is still there, although the backed-up installation had
  no such file.
\<close>

theorem restore_keeps_added_file_counterexample:
  "file_at (target ex_backup_world) [''b.txt''] = None
   \<and> file_at (target (backup_mutate_restore ''20240101_000005'' ex_mutated ex_backup_world)) [''b.txt'']
       = Some ''2''"
  by (simp add: backup_mutate_restore_def doRestore_def createBackup_def ex_backup_world_def Let_def
     backupName_def ins_def ui0_def ex_tgt_def ex_mutated_def isBackupName_def HasPrefix_def
     HasSuffix_def sortReverse_def WalkDir_def createBackup_fn_def readFile_def del_def addLog_def
     osRemove_def killIPCAS_def openZip_def mkdirParent_def launchIPCAS_def stat_def setStatus_def setProgress_def
     showMsg_def file_at_def)

section \<open>What Apply leaves in the target when entries fail\<close>

lemma target_updateLoop:
  "target (updateLoop i n fs w) = foldl (copy_entry (source w)) (target w) fs
   \<and> source (updateLoop i n fs w) = source w"
proof (induction fs arbitrary: i w)
  case Nil
  then show ?case by simp
next
  case (Cons f fs)
  show ?case
    by (simp add: Cons.IH Let_def copy_entry_def put_def split: sum.splits)
qed

lemma target_performFilesUpdate:
  "target (performFilesUpdate el fs w) = foldl (copy_entry (source w)) (target w) fs"
proof -
  let ?w2 = "(killIPCAS w)\<lparr>gui := setProgress 0 (gui (killIPCAS w))\<rparr>"
  have "target (updateLoop 0 (length fs) fs ?w2) = foldl (copy_entry (source w)) (target w) fs"
    unfolding target_updateLoop [THEN conjunct1] by (simp add: killIPCAS_def)
  then show ?thesis
    by (simp add: performFilesUpdate_def Let_def refreshBackups_def split: list.splits)
qed

lemma mkdirParent_kind:
  "kind_at (mkdirParent t p) r = kind_at t r
   \<or> (strict_prefix r p \<and> kind_at (mkdirParent t p) r = KDir \<and> (\<forall>w c. kind_at t r \<noteq> KFile w c))"
proof (cases "p = []")
  case True
  then show ?thesis by (simp add: mkdirParent_def)
next
  case False
  show ?thesis
  proof (cases "mkdirAll t (butlast p)")
    case (Inl e)
    then show ?thesis using False by (simp add: mkdirParent_def)
  next
    case (Inr n)
    have nf: "\<forall>q w c. prefix q (butlast p) \<longrightarrow> kind_at t q \<noteq> KFile w c"
    proof (intro allI impI notI)
      fix q w c assume "prefix q (butlast p)" "kind_at t q = KFile w c"
      then have "\<exists>e. mkdirAll t (butlast p) = Inl e" by (rule mkdirAll_fail)
      then show False using Inr by simp
    qed
    then obtain n' where n': "mkdirAll t (butlast p) = Inr n'"
        "\<forall>q. kind_at (Some n') q = (if prefix q (butlast p) then KDir else kind_at t q)"
      using mkdirAll_ok [of "butlast p" t] by blast
    have m: "mkdirParent t p = Some n'" using False n'(1) by (simp add: mkdirParent_def)
    show ?thesis
      unfolding m using n'(2) nf strict_prefix_butlast [OF False, of r] by auto
  qed
qed

lemma writeFile_data:
  "(\<exists>n. writeFile rt p d = Inr n) \<longleftrightarrow> (\<exists>n. writeFile rt p d' = Inr n)"
  using writeFile_Inr_cond [of rt p d] writeFile_Inr_cond [of rt p d']
        writeFile_ok [of p rt d] writeFile_ok [of p rt d']
  by blast

lemma can_write_data:
  "can_write t p \<longleftrightarrow> (\<exists>n. writeFile (mkdirParent t p) p d = Inr n)"
  using writeFile_data [of "mkdirParent t p" p "[]" d]
  by (auto simp: can_write_def split: sum.splits)

lemma put_cannot_write: "\<not> can_write t p \<Longrightarrow> put t p d = mkdirParent t p"
  using can_write_data [of t p d] by (auto simp: put_def split: sum.splits)

lemma copy_entry_kind:
  assumes "r \<noteq> p"
  shows "kind_at (copy_entry src t p) r = kind_at t r
   \<or> (strict_prefix r p \<and> kind_at (copy_entry src t p) r = KDir \<and> (\<forall>w c. kind_at t r \<noteq> KFile w c))"
proof (cases "readFile src p")
  case (Inl e)
  then show ?thesis using mkdirParent_kind [of t p r] by (simp add: copy_entry_def)
next
  case (Inr d)
  show ?thesis
  proof (cases "can_write t p")
    case True
    then have f: "free_for t p" by (rule can_write_free_for)
    have "kind_at (put t p d) r = (if strict_prefix r p then KDir else kind_at t r)"
      using free_for_put(2) [OF f, of d r] assms by simp
    then show ?thesis using Inr f by (auto simp: copy_entry_def free_for_def)
  next
    case False
    then show ?thesis
      using Inr mkdirParent_kind [of t p r] by (simp add: copy_entry_def put_cannot_write)
  qed
qed

lemma copy_entry_self:
  "file_at (copy_entry src t p) p
     = (case readFile src p of
          Inl e \<Rightarrow> file_at t p
        | Inr d \<Rightarrow> if can_write t p then Some d else file_at t p)"
proof -
  have m: "file_at (mkdirParent t p) p = file_at t p"
    using mkdirParent_kind [of t p p] by (simp add: file_at_kind)
  show ?thesis
    using m by (auto simp: copy_entry_def put_file_at put_cannot_write split: sum.splits)
qed

lemma copy_entry_other:
  assumes "\<not> prefix q p"
  shows "kind_at (copy_entry src t p) q = kind_at t q"
  using copy_entry_kind [of q p src t] assms by (auto simp: strict_prefix_def)

lemma copy_entry_free:
  assumes "\<not> prefix p q" "\<not> prefix q p"
  shows "free_for (copy_entry src t p) q \<longleftrightarrow> free_for t q"
proof -
  have q: "kind_at (copy_entry src t p) q = kind_at t q"
    using assms(2) by (rule copy_entry_other)
  have "(\<exists>w c. kind_at (copy_entry src t p) r = KFile w c) \<longleftrightarrow> (\<exists>w c. kind_at t r = KFile w c)"
    if "strict_prefix r q" for r
  proof -
    have "r \<noteq> p" using that assms(1) by (auto simp: strict_prefix_def)
    then have "kind_at (copy_entry src t p) r = kind_at t r
       \<or> (strict_prefix r p \<and> kind_at (copy_entry src t p) r = KDir
           \<and> (\<forall>w c. kind_at t r \<noteq> KFile w c))"
      by (rule copy_entry_kind)
    then show ?thesis
    proof
      assume "kind_at (copy_entry src t p) r = kind_at t r"
      then show ?thesis by simp
    next
      assume "strict_prefix r p \<and> kind_at (copy_entry src t p) r = KDir
           \<and> (\<forall>w c. kind_at t r \<noteq> KFile w c)"
      then show ?thesis by simp
    qed
  qed
  then show ?thesis unfolding free_for_def q by blast
qed

lemma can_write_iff_free_for: "can_write t p \<longleftrightarrow> free_for t p"
  using can_write_free_for [of t p] free_for_put(1) [of t p] by blast

lemma foldl_copy_entry_other:
  assumes "\<forall>a \<in> set xs. \<not> prefix a q \<and> \<not> prefix q a"
  shows "file_at (foldl (copy_entry src) t xs) q = file_at t q
       \<and> (can_write (foldl (copy_entry src) t xs) q \<longleftrightarrow> can_write t q)"
  using assms
proof (induction xs arbitrary: t)
  case Nil
  then show ?case by simp
next
  case (Cons a xs)
  have i: "\<not> prefix a q" "\<not> prefix q a" using Cons.prems by simp_all
  have "file_at (copy_entry src t a) q = file_at t q"
    using copy_entry_other [OF i(2), of src t] by (simp add: file_at_kind)
  moreover have "can_write (copy_entry src t a) q \<longleftrightarrow> can_write t q"
    using copy_entry_free [OF i, of src t] by (simp add: can_write_iff_free_for)
  ultimately show ?case using Cons.IH [of "copy_entry src t a"] Cons.prems by simp
qed

lemma foldl_copy_entry_file_at:
  assumes "distinct fs"
      and "\<forall>p \<in> set fs. \<forall>q \<in> set fs. prefix p q \<longrightarrow> p = q"
      and "p \<in> set fs"
  shows "file_at (foldl (copy_entry src) t fs) p
           = (case readFile src p of
                Inl e \<Rightarrow> file_at t p
              | Inr d \<Rightarrow> if can_write t p then Some d else file_at t p)"
  using assms
proof (induction fs arbitrary: t)
  case Nil
  then show ?case by simp
next
  case (Cons a fs)
  show ?case
  proof (cases "p = a")
    case True
    have "\<forall>b \<in> set fs. \<not> prefix b a \<and> \<not> prefix a b" using Cons.prems(1,2) by auto
    then have "file_at (foldl (copy_entry src) (copy_entry src t a) fs) a = file_at (copy_entry src t a) a"
      using foldl_copy_entry_other [of fs a src "copy_entry src t a"] by simp
    then show ?thesis unfolding True by (simp add: copy_entry_self)
  next
    case False
    then have p: "p \<in> set fs" using Cons.prems(3) by simp
    have i: "\<not> prefix a p" "\<not> prefix p a" using Cons.prems(2,3) False by auto
    have f: "file_at (copy_entry src t a) p = file_at t p"
      using copy_entry_other [OF i(2), of src t] by (simp add: file_at_kind)
    have c: "can_write (copy_entry src t a) p \<longleftrightarrow> can_write t p"
      using copy_entry_free [OF i, of src t] by (simp add: can_write_iff_free_for)
    have "file_at (foldl (copy_entry src) (copy_entry src t a) fs) p
           = (case readFile src p of
                Inl e \<Rightarrow> file_at (copy_entry src t a) p
              | Inr d \<Rightarrow> if can_write (copy_entry src t a) p then Some d
                         else file_at (copy_entry src t a) p)"
      using Cons.IH [of "copy_entry src t a"] Cons.prems(1,2) p by simp
    then show ?thesis unfolding f c by simp
  qed
qed

lemma entry_result_trees:
  "entry_result w p
     = (case readFile (source w) p of
          Inl e \<Rightarrow> LogReadErr p
        | Inr d \<Rightarrow> if can_write (target w) p then LogUpdated p else LogWriteErr p)"
proof (cases "readFile (source w) p")
  case (Inl e)
  then show ?thesis by (simp add: entry_result_def)
next
  case (Inr d)
  then show ?thesis
    using can_write_data [of "target w" p d]
    by (auto simp: entry_result_def split: sum.splits)
qed

lemma entry_result_independent:
  assumes d: "distinct fs"
      and inc: "\<forall>p \<in> set fs. \<forall>q \<in> set fs. prefix p q \<longrightarrow> p = q"
      and k: "k < length fs"
  shows "entry_result (updateLoop i n (take k fs) w) (fs ! k) = entry_result w (fs ! k)"
proof -
  have fs: "fs = take k fs @ fs ! k # drop (Suc k) fs" using k by (rule id_take_nth_drop)
  have "fs ! k \<notin> set (take k fs)" using d fs by (metis distinct_append not_distinct_conv_prefix append.assoc append_Cons)
  moreover have "set (take k fs) \<subseteq> set fs" by (rule set_take_subset)
  moreover have "fs ! k \<in> set fs" using k by simp
  ultimately have "\<forall>a \<in> set (take k fs). \<not> prefix a (fs ! k) \<and> \<not> prefix (fs ! k) a"
    using inc by blast
  then have "can_write (foldl (copy_entry (source w)) (target w) (take k fs)) (fs ! k)
               \<longleftrightarrow> can_write (target w) (fs ! k)"
    using foldl_copy_entry_other [of "take k fs" "fs ! k" "source w" "target w"] by simp
  then show ?thesis
    by (simp add: entry_result_trees target_updateLoop)
qed

lemma apply_independent_entries:
  assumes d: "distinct fs"
      and inc: "\<forall>p \<in> set fs. \<forall>q \<in> set fs. prefix p q \<longrightarrow> p = q"
  shows "map (\<lambda>k. entry_result (updateLoop 0 (length fs) (take k fs) w) (fs ! k)) [0..<length fs]
           = map (entry_result w) fs"
proof -
  have "map (\<lambda>k. entry_result (updateLoop 0 (length fs) (take k fs) w) (fs ! k)) [0..<length fs]
          = map (\<lambda>k. entry_result w (fs ! k)) [0..<length fs]"
    using entry_result_independent [OF d inc] by simp
  also have "\<dots> = map (entry_result w) (map (\<lambda>k. fs ! k) [0..<length fs])" by simp
  also have "\<dots> = map (entry_result w) fs" by (simp only: map_nth)
  finally show ?thesis .
qed

text \<open>The change sets the differ computes are of this kind: it lists files of the
  source tree, each once, and no file of a tree lies below another.\<close>

lemma getFilesToUpdate_independent:
  assumes wf: "wf_root src"
  shows "distinct (fst (getFilesToUpdate md5 src tgt))"
    and "\<forall>p \<in> set (fst (getFilesToUpdate md5 src tgt)).
           \<forall>q \<in> set (fst (getFilesToUpdate md5 src tgt)). prefix p q \<longrightarrow> p = q"
proof -
  let ?P = "\<lambda>(p, f). diff_reason md5 src tgt p f \<noteq> None"
  have fs: "fst (getFilesToUpdate md5 src tgt) = map fst (filter ?P (regular_files src))"
    by (simp add: getFilesToUpdate_def getFilesToUpdate_run_files)
  show "distinct (fst (getFilesToUpdate md5 src tgt))"
    unfolding fs using regular_files_distinct [OF wf] by (rule distinct_map_filter)
  show "\<forall>p \<in> set (fst (getFilesToUpdate md5 src tgt)).
           \<forall>q \<in> set (fst (getFilesToUpdate md5 src tgt)). prefix p q \<longrightarrow> p = q"
  proof (intro ballI impI)
    fix p q
    assume "p \<in> set (fst (getFilesToUpdate md5 src tgt))"
       and "q \<in> set (fst (getFilesToUpdate md5 src tgt))" and pre: "prefix p q"
    then obtain f g where "(p, f) \<in> set (regular_files src)" "(q, g) \<in> set (regular_files src)"
      unfolding fs by auto
    then show "p = q" using pre by (rule regular_files_incomparable [OF wf])
  qed
qed

section \<open>The claim about failures during Apply\<close>

text \<open>
  C5. For every change set, \<^verbatim>\<open>performFilesUpdate\<close> logs, after the line of
  \<^verbatim>\<open>killIPCAS\<close>, exactly one line per entry, in order: the read error or the write
  error if copying the entry fails on the state the earlier entries have left, the
  update line otherwise. The operation then logs its closing line and ends with the
  status "update complete" and the message box of a finished update, whatever
  failed: it has no error to return. The target
  it leaves is the one obtained by carrying out the copy step of every entry in
  turn, the failed ones included (they leave at most new parent directories).

  When the paths of the change set are distinct and none lies below another, as in
  every change set the differ computes from a tree with distinct entry names, no
  entry depends on the others: the line of each entry is the one it would get on
  the initial state, and after the operation every entry whose source can be read
  and whose target path can be written holds the bytes of the source, whichever
  other entries have failed, while an entry that fails holds what it held before.
\<close>

theorem apply_logs_failure_and_continues:
  "log (gui (performFilesUpdate el fs w)) =
     log (gui w) @ LogKilled
       # map (\<lambda>k. entry_result (updateLoop 0 (length fs) (take k fs) w) (fs ! k))
           [0..<length fs]
       @ LogUpdateDone (length fs) el
       # (case stat (target (updateLoop 0 (length fs) fs w)) [''ipcas2.exe''] of
            Inl e \<Rightarrow> [] | Inr i \<Rightarrow> [LogLaunched])
   \<and> status (gui (performFilesUpdate el fs w)) = StUpdateDone
   \<and> dialogs (gui (performFilesUpdate el fs w)) = dialogs (gui w) @ [DlgUpdated (length fs)]
   \<and> target (performFilesUpdate el fs w) = foldl (copy_entry (source w)) (target w) fs
   \<and> (distinct fs \<and> (\<forall>p \<in> set fs. \<forall>q \<in> set fs. prefix p q \<longrightarrow> p = q) \<longrightarrow>
        log (gui (performFilesUpdate el fs w)) =
          log (gui w) @ LogKilled # map (entry_result w) fs
            @ LogUpdateDone (length fs) el
            # (case stat (target (performFilesUpdate el fs w)) [''ipcas2.exe''] of
                 Inl e \<Rightarrow> [] | Inr i \<Rightarrow> [LogLaunched])
        \<and> (\<forall>p \<in> set fs.
              entry_result w p
                = (case readFile (source w) p of
                     Inl e \<Rightarrow> LogReadErr p
                   | Inr data \<Rightarrow> if can_write (target w) p then LogUpdated p else LogWriteErr p)
              \<and> file_at (target (performFilesUpdate el fs w)) p
                  = (case readFile (source w) p of
                       Inl e \<Rightarrow> file_at (target w) p
                     | Inr data \<Rightarrow>
                         if can_write (target w) p then Some data else file_at (target w) p)))"
proof -
  have t: "target (performFilesUpdate el fs w) = foldl (copy_entry (source w)) (target w) fs"
    by (rule target_performFilesUpdate)
  have tu: "target (updateLoop 0 (length fs) fs w) = target (performFilesUpdate el fs w)"
    unfolding t by (simp add: target_updateLoop)
  have l: "log (gui (performFilesUpdate el fs w)) =
          log (gui w) @ LogKilled # map (entry_result w) fs
            @ LogUpdateDone (length fs) el
            # (case stat (target (performFilesUpdate el fs w)) [''ipcas2.exe''] of
                 Inl e \<Rightarrow> [] | Inr i \<Rightarrow> [LogLaunched])"
    if "distinct fs" "\<forall>p \<in> set fs. \<forall>q \<in> set fs. prefix p q \<longrightarrow> p = q"
    unfolding log_performFilesUpdate [of el fs w] apply_independent_entries [OF that] tu ..
  have f: "\<forall>p \<in> set fs.
              entry_result w p
                = (case readFile (source w) p of
                     Inl e \<Rightarrow> LogReadErr p
                   | Inr data \<Rightarrow> if can_write (target w) p then LogUpdated p else LogWriteErr p)
              \<and> file_at (target (performFilesUpdate el fs w)) p
                  = (case readFile (source w) p of
                       Inl e \<Rightarrow> file_at (target w) p
                     | Inr data \<Rightarrow>
                         if can_write (target w) p then Some data else file_at (target w) p)"
    if "distinct fs" "\<forall>p \<in> set fs. \<forall>q \<in> set fs. prefix p q \<longrightarrow> p = q"
    unfolding t using foldl_copy_entry_file_at [OF that] entry_result_trees by blast
  show ?thesis
    using log_performFilesUpdate [of el fs w] status_performFilesUpdate [of el fs w]
      dialogs_performFilesUpdate [of el fs w] t l f
    by blast
qed

text \<open>The first entry cannot be read and the second cannot be written; the third is
  copied all the same.\<close>

theorem apply_logs_failure_and_continues_witness:
  "distinct [[''a.txt''], [''b.txt''], [''c.txt'']]
   \<and> readFile (source ex_partial_world) [''a.txt''] = Inl ErrPermission
   \<and> readFile (source ex_partial_world) [''b.txt''] = Inr ''22''
   \<and> readFile (source ex_partial_world) [''c.txt''] = Inr ''333''
   \<and> \<not> can_write (target ex_partial_world) [''b.txt'']
   \<and> can_write (target ex_partial_world) [''c.txt'']
   \<and> file_at (target ex_partial_world) [''c.txt''] = None
   \<and> log (gui (performFilesUpdate 3 [[''a.txt''], [''b.txt''], [''c.txt'']] ex_partial_world))
       = [LogKilled, LogReadErr [''a.txt''], LogWriteErr [''b.txt''], LogUpdated [''c.txt''],
          LogUpdateDone 3 3]
   \<and> status (gui (performFilesUpdate 3 [[''a.txt''], [''b.txt''], [''c.txt'']] ex_partial_world))
       = StUpdateDone
   \<and> dialogs (gui (performFilesUpdate 3 [[''a.txt''], [''b.txt''], [''c.txt'']] ex_partial_world))
       = [DlgUpdated 3]
   \<and> file_at (target (performFilesUpdate 3 [[''a.txt''], [''b.txt''], [''c.txt'']] ex_partial_world))
         [''a.txt''] = None
   \<and> file_at (target (performFilesUpdate 3 [[''a.txt''], [''b.txt''], [''c.txt'']] ex_partial_world))
         [''b.txt''] = Some ''old''
   \<and> file_at (target (performFilesUpdate 3 [[''a.txt''], [''b.txt''], [''c.txt'']] ex_partial_world))
         [''c.txt''] = Some ''333''"
proof -
  let ?fs = "[[''a.txt''], [''b.txt''], [''c.txt'']]"
  let ?w = ex_partial_world
  note t = apply_logs_failure_and_continues [of 3 ?fs ?w]
  have h: "distinct ?fs \<and> (\<forall>p \<in> set ?fs. \<forall>q \<in> set ?fs. prefix p q \<longrightarrow> p = q)" by simp
  have r: "readFile (source ?w) [''a.txt''] = Inl ErrPermission"
      "readFile (source ?w) [''b.txt''] = Inr ''22''"
      "readFile (source ?w) [''c.txt''] = Inr ''333''"
      "\<not> can_write (target ?w) [''b.txt'']"
      "can_write (target ?w) [''c.txt'']"
      "file_at (target ?w) [''a.txt''] = None"
      "file_at (target ?w) [''b.txt''] = Some ''old''"
      "file_at (target ?w) [''c.txt''] = None"
    by (simp_all add: ex_partial_world_def readFile_def file_at_def can_write_def mkdirParent_def)
  have f: "\<forall>p \<in> set ?fs.
              entry_result ?w p
                = (case readFile (source ?w) p of
                     Inl e \<Rightarrow> LogReadErr p
                   | Inr data \<Rightarrow> if can_write (target ?w) p then LogUpdated p else LogWriteErr p)
              \<and> file_at (target (performFilesUpdate 3 ?fs ?w)) p
                  = (case readFile (source ?w) p of
                       Inl e \<Rightarrow> file_at (target ?w) p
                     | Inr data \<Rightarrow>
                         if can_write (target ?w) p then Some data
                         else file_at (target ?w) p)"
    using t h by blast
  have fa: "file_at (target (performFilesUpdate 3 ?fs ?w)) [''a.txt''] = None"
       "file_at (target (performFilesUpdate 3 ?fs ?w)) [''b.txt''] = Some ''old''"
       "file_at (target (performFilesUpdate 3 ?fs ?w)) [''c.txt''] = Some ''333''"
    using f r by simp_all
  have s: "status (gui (performFilesUpdate 3 ?fs ?w)) = StUpdateDone"
    using t by blast
  have "dialogs (gui (performFilesUpdate 3 ?fs ?w)) = dialogs (gui ?w) @ [DlgUpdated (length ?fs)]"
    using t by blast
  then have dl: "dialogs (gui (performFilesUpdate 3 ?fs ?w)) = [DlgUpdated 3]"
    by (simp add: ex_partial_world_def ui0_def)
  have tg: "target (performFilesUpdate 3 ?fs ?w) = foldl (copy_entry (source ?w)) (target ?w) ?fs"
    using t by blast
  have st: "stat (target (performFilesUpdate 3 ?fs ?w)) [''ipcas2.exe''] = Inl ErrNotExist"
    unfolding tg
    by (simp add: copy_entry_def put_def ex_partial_world_def readFile_def mkdirParent_def stat_def
          map_of_ins)
  have "log (gui (performFilesUpdate 3 ?fs ?w)) =
          log (gui ?w) @ LogKilled # map (entry_result ?w) ?fs
            @ LogUpdateDone (length ?fs) 3
            # (case stat (target (performFilesUpdate 3 ?fs ?w)) [''ipcas2.exe''] of
                 Inl e \<Rightarrow> [] | Inr i \<Rightarrow> [LogLaunched])"
    using t h by blast
  moreover have "map (entry_result ?w) ?fs
                   = [LogReadErr [''a.txt''], LogWriteErr [''b.txt''], LogUpdated [''c.txt'']]"
    using f r by simp
  moreover have "log (gui ?w) = []" by (simp add: ex_partial_world_def ui0_def)
  ultimately have l: "log (gui (performFilesUpdate 3 ?fs ?w))
       = [LogKilled, LogReadErr [''a.txt''], LogWriteErr [''b.txt''], LogUpdated [''c.txt''],
          LogUpdateDone 3 3]"
    by (simp add: st)
  show ?thesis
    using r fa s dl l by simp
qed

end
